theory Spec2Isabelle
  imports Main "HOL-Library.Sublist" "HOL-Library.AList"
begin

section \<open>The daily report client: data model\<close>

text \<open>
  Modelled from the spec: the \<^verbatim>\<open>Tweet\<close> type is imported from the package
  \<^verbatim>\<open>agent-twitter-client\<close> and is not among the sources. The record has the fields of
  the spec's Post that \<^verbatim>\<open>DailyReportClient\<close> reads: identifier, author handle, body
  text, creation timestamp, like count, repost count, hashtag list, retweet flag and
  conversation identifier. The engagement counts are counts (\<open>nat\<close>); the timestamp is a
  number compared with \<^verbatim>\<open>Date.now()\<close> (\<open>int\<close>). A string is a list of characters, and
  \<open>length\<close> stands for the \<^verbatim>\<open>.length\<close> of the source.
\<close>

record tweet =
  tweet_id :: string
  username :: string
  tweet_text :: string
  timestamp :: int
  likes :: nat
  retweets :: nat
  hashtags :: "string list"
  isRetweet :: bool
  conversationId :: string

section \<open>Analytics helpers\<close>

subsection \<open>findMostEngagedTweet\<close>

text \<open>
  \<^verbatim>\<open>tweets.reduce((prev, current) =>
     (prev.likes + prev.retweets) > (current.likes + current.retweets) ? prev : current,
     { likes: 0, retweets: 0 } as Tweet)\<close>

  The initial accumulator is an object with the two engagement fields only, set to zero;
  it is kept apart from every fetched tweet as the value \<open>Sentinel\<close>.
\<close>

datatype engaged = Sentinel | Fetched tweet

fun engagement :: "engaged \<Rightarrow> nat" where
  "engagement Sentinel = 0 + 0"
| "engagement (Fetched t) = likes t + retweets t"

definition more_engaged :: "engaged \<Rightarrow> tweet \<Rightarrow> engaged" where
  "more_engaged prev current =
     (if engagement prev > engagement (Fetched current) then prev else Fetched current)"

definition findMostEngagedTweet :: "tweet list \<Rightarrow> engaged" where
  "findMostEngagedTweet tweets = foldl more_engaged Sentinel tweets"

subsection \<open>analyzeSentiment\<close>

text \<open>
  \<^verbatim>\<open>toLowerCase\<close> maps the letters A to Z to a to z. The other characters that the
  source's \<^verbatim>\<open>toLowerCase\<close> changes do not become a letter that can take part in a match
  of one of the six words below, so they are left as they are.
\<close>

definition lower_char :: "char \<Rightarrow> char" where
  "lower_char c =
     (case map_of (zip ''ABCDEFGHIJKLMNOPQRSTUVWXYZ'' ''abcdefghijklmnopqrstuvwxyz'') c of
        Some d \<Rightarrow> d
      | None \<Rightarrow> c)"

definition toLowerCase :: "string \<Rightarrow> string" where
  "toLowerCase s = map lower_char s"

text \<open>A regular expression that is an alternation of literal words, tested unanchored.\<close>

fun contains_word :: "string \<Rightarrow> string \<Rightarrow> bool" where
  "contains_word [] w = (w = [])"
| "contains_word (c # cs) w = (prefix w (c # cs) \<or> contains_word cs w)"

definition regex_test :: "string list \<Rightarrow> string \<Rightarrow> bool" where
  "regex_test alternatives s = list_ex (contains_word s) alternatives"

definition positive_words :: "string list" where
  "positive_words = [''great'', ''awesome'', ''amazing'']"

definition negative_words :: "string list" where
  "negative_words = [''bad'', ''terrible'', ''disappointing'']"

definition score :: "tweet \<Rightarrow> int" where
  "score t =
     (let txt = toLowerCase (tweet_text t) in
      if regex_test positive_words txt then 1
      else if regex_test negative_words txt then - 1
      else 0)"

record sentiment =
  positive :: nat
  neutral :: nat
  negative :: nat

definition analyzeSentiment :: "tweet list \<Rightarrow> sentiment" where
  "analyzeSentiment tweets =
     (let scores = map score tweets in
      \<lparr> positive = length (filter (\<lambda>s. s > 0) scores),
        neutral = length (filter (\<lambda>s. s = 0) scores),
        negative = length (filter (\<lambda>s. s < 0) scores) \<rparr>)"

text \<open>
  The classification in the words of the specification: positive when the lowercased
  text matches the positive lexicon, otherwise negative when it matches the negative
  lexicon, otherwise neutral.
\<close>

datatype sentiment_class = Positive | Neutral | Negative

definition spec_class :: "tweet \<Rightarrow> sentiment_class" where
  "spec_class t =
     (if regex_test positive_words (toLowerCase (tweet_text t)) then Positive
      else if regex_test negative_words (toLowerCase (tweet_text t)) then Negative
      else Neutral)"

subsection \<open>getTopHashtags\<close>

text \<open>
  \<^verbatim>\<open>tweets.flatMap(t => t.hashtags).reduce((acc, tag) => {
       acc[tag] = (acc[tag] || 0) + 1; return acc; }, {})\<close>

  The accumulator is an object literal. Its own properties are kept as an association
  list in the order of their creation. A value is a number, or a string that is not a
  number: reading a name that the object inherits from \<^verbatim>\<open>Object.prototype\<close> gives a
  function, and a function plus one is a string.
\<close>

datatype jsval = Num nat | Str

definition inherited_names :: "string list" where
  "inherited_names =
     [''constructor'', ''hasOwnProperty'', ''isPrototypeOf'', ''propertyIsEnumerable'',
      ''toLocaleString'', ''toString'', ''valueOf'', ''__defineGetter__'',
      ''__defineSetter__'', ''__lookupGetter__'', ''__lookupSetter__'']"

text \<open>
  One step of the reduction. An own property is read and written back at its place. A
  name that is not yet an own property is created last: with the value one when nothing
  is inherited under it, with a string when a function is. The accessor \<^verbatim>\<open>__proto__\<close>
  reads as an object and ignores the string assigned to it, so no property is created.
\<close>

definition count_tag :: "(string \<times> jsval) list \<Rightarrow> string \<Rightarrow> (string \<times> jsval) list" where
  "count_tag acc tag =
     (case map_of acc tag of
        Some (Num c) \<Rightarrow> AList.update tag (Num (c + 1)) acc
      | Some Str \<Rightarrow> AList.update tag Str acc
      | None \<Rightarrow>
          if tag = ''__proto__'' then acc
          else if tag \<in> set inherited_names then acc @ [(tag, Str)]
          else acc @ [(tag, Num (0 + 1))])"

text \<open>
  \<^verbatim>\<open>Object.entries\<close> lists the properties whose name is an array index first, in
  ascending numeric order, and then the other properties in the order of their creation.
  An array index is the canonical decimal numeral of an integer below \<open>2^32 - 1\<close>.
\<close>

definition digit_chars :: "string" where
  "digit_chars = ''0123456789''"

definition digit_value :: "char \<Rightarrow> nat" where
  "digit_value c =
     (case map_of (zip digit_chars [0, 1, 2, 3, 4, 5, 6, 7, 8, 9]) c of
        Some d \<Rightarrow> d
      | None \<Rightarrow> 0)"

definition index_value :: "string \<Rightarrow> nat" where
  "index_value s = foldl (\<lambda>n c. 10 * n + digit_value c) 0 s"

definition is_array_index :: "string \<Rightarrow> bool" where
  "is_array_index s =
     (s \<noteq> [] \<and> list_all (\<lambda>c. c \<in> set digit_chars) s
      \<and> (s = ''0'' \<or> hd s \<noteq> CHR ''0'') \<and> index_value s < 4294967295)"

definition Object_entries :: "(string \<times> 'v) list \<Rightarrow> (string \<times> 'v) list" where
  "Object_entries obj =
     sort_key (\<lambda>e. index_value (fst e)) (filter (\<lambda>e. is_array_index (fst e)) obj)
     @ filter (\<lambda>e. \<not> is_array_index (fst e)) obj"

text \<open>
  \<^verbatim>\<open>.sort((a, b) => b[1] - a[1])\<close> is a stable sort. When every count is a number it
  orders the entries by descending count. When a count is a string, every comparison
  with it gives \<^verbatim>\<open>NaN\<close>, which counts as equal. If the counts that are numbers are all
  equal as well, all entries compare as equal and the sort leaves them in place. If not,
  the comparison function is not consistent and the order is the one the engine gives:
  the parameter \<open>engine\<close> of the model, of which nothing is assumed.
\<close>

definition count_key :: "string \<times> jsval \<Rightarrow> int" where
  "count_key e = (case snd e of Num c \<Rightarrow> - int c | Str \<Rightarrow> 0)"

definition all_numbers :: "(string \<times> jsval) list \<Rightarrow> bool" where
  "all_numbers es = list_all (\<lambda>e. snd e \<noteq> Str) es"

fun number_counts :: "(string \<times> jsval) list \<Rightarrow> nat list" where
  "number_counts [] = []"
| "number_counts ((k, Num c) # es) = c # number_counts es"
| "number_counts ((k, Str) # es) = number_counts es"

definition all_compare_equal :: "(string \<times> jsval) list \<Rightarrow> bool" where
  "all_compare_equal es =
     (case number_counts es of [] \<Rightarrow> True | c # cs \<Rightarrow> list_all (\<lambda>d. d = c) cs)"

definition array_sort ::
  "((string \<times> jsval) list \<Rightarrow> (string \<times> jsval) list)
     \<Rightarrow> (string \<times> jsval) list \<Rightarrow> (string \<times> jsval) list" where
  "array_sort engine es =
     (if all_numbers es then sort_key count_key es
      else if all_compare_equal es then es
      else engine es)"

definition flat_hashtags :: "tweet list \<Rightarrow> string list" where
  "flat_hashtags tweets = concat (map hashtags tweets)"

definition hashtagCount :: "tweet list \<Rightarrow> (string \<times> jsval) list" where
  "hashtagCount tweets = foldl count_tag [] (flat_hashtags tweets)"

text \<open>
  \<^verbatim>\<open>Object.entries(hashtagCount).sort(...).slice(0, limit).map(([tag]) => tag)\<close>, with
  the parameter \<^verbatim>\<open>limit = 3\<close>: an absent argument is \<open>None\<close>.
\<close>

definition getTopHashtags ::
  "((string \<times> jsval) list \<Rightarrow> (string \<times> jsval) list)
     \<Rightarrow> tweet list \<Rightarrow> nat option \<Rightarrow> string list" where
  "getTopHashtags engine tweets lim =
     (let limit = (case lim of None \<Rightarrow> 3 | Some n \<Rightarrow> n) in
      map fst (take limit (array_sort engine (Object_entries (hashtagCount tweets)))))"

section \<open>Collaborators, state and effects\<close>

text \<open>
  Every \<^verbatim>\<open>throw\<close> of the source and every rejected \<^verbatim>\<open>await\<close> is a value of type
  \<open>error\<close>; a computation that can throw returns \<open>error + 'a\<close> beside the state it leaves.
\<close>

datatype error =
    FetchError
  | StateError
  | GenerationError
  | ParseError
  | SendError
  | TypeError
  | PersistenceError
  | NoteTweetFailed error

text \<open>The platform's answers, as far as the client reads them.\<close>

record legacy =
  full_text :: string
  conversation_id_str :: string
  created_at :: string
  in_reply_to_status_id_str :: string

record tweet_result =
  rest_id :: string
  legacy :: "legacy option"

text \<open>
  \<^verbatim>\<open>noteTweetResult.data.notetweet_create.tweet_results.result\<close>: the path can break on
  an absent object (a \<^verbatim>\<open>TypeError\<close>), end on \<^verbatim>\<open>undefined\<close>, or give the result.
\<close>

datatype 'a path = Broken | Undefined | Defined 'a

record note_response =
  errors :: "string list option"
  data_result :: "tweet_result path"

record profile =
  screenName :: string
  profile_username :: string
  profile_id :: string

text \<open>The object that \<^verbatim>\<open>createTweetObject\<close> builds, with the fields it sets.\<close>

record posted =
  posted_id :: string
  posted_name :: string
  posted_username :: string
  posted_text :: string
  posted_conversationId :: string
  posted_createdAt :: string
  posted_timestamp :: int
  posted_userId :: string
  posted_inReplyToStatusId :: string
  posted_permanentUrl :: string

record analysis =
  totalTweets :: nat
  topHashtags :: "string list"
  sentiment_tally :: sentiment
  mostEngagedTweet :: engaged

datatype message = AnalysisMessage analysis | SummaryMessage string

datatype template = DailyAnalysisTemplate | DailyReportTemplate

text \<open>
  The calls that leave the client, in the order they are made, with the errors that are
  logged and the log of a finished run among them. The five last ones are the persisted
  side effects of \<^verbatim>\<open>processAndCacheTweet\<close>.
\<close>

datatype event =
    FetchSearchTweets string
  | Wait
  | ComposeState message
  | GenerateText string
  | SendNoteTweet string
  | SendTweet string
  | LogError error
  | LogPublished
  | CacheSet string string int
  | CacheTweet posted
  | EnsureRoomExists string
  | EnsureParticipantInRoom string string
  | CreateMemory string string string string int

text \<open>
  The state of a \<^verbatim>\<open>DailyReportClient\<close>: the field \<^verbatim>\<open>isProcessing\<close>, the number of
  \<^verbatim>\<open>Date.now()\<close> readings taken so far, and the calls made so far.
\<close>

record world =
  isProcessing :: bool
  clock_reads :: nat
  trace :: "event list"

text \<open>
  The configuration and the collaborators. \<^verbatim>\<open>DEFAULT_MAX_TWEET_LENGTH\<close> and the
  configuration come from \<^verbatim>\<open>./environment\<close>, the helpers \<^verbatim>\<open>stringToUuid\<close>,
  \<^verbatim>\<open>composeContext\<close>, \<^verbatim>\<open>cleanJsonResponse\<close> and \<^verbatim>\<open>truncateToCompleteSentence\<close> from
  \<^verbatim>\<open>@elizaos/core\<close>; none of them is among the sources, so they are parameters. An
  answer of a collaborator is a function of the request. \<^verbatim>\<open>TWITTER_TARGET_USERS\<close> is
  \<open>None\<close> when the setting is absent; the \<open>n\<close>-th reading of the clock is \<open>clock n\<close>;
  \<open>engine_order\<close> is the order the engine's sort gives under a comparison function that
  is not consistent.
\<close>

record env =
  TWITTER_TARGET_USERS :: "string list option"
  TWITTER_USERNAME :: string
  DEFAULT_MAX_TWEET_LENGTH :: nat
  MAX_TWEET_LENGTH :: nat
  agentId :: string
  client_profile :: "profile option"
  clock :: "nat \<Rightarrow> int"
  engine_order :: "(string \<times> jsval) list \<Rightarrow> (string \<times> jsval) list"
  stringToUuid :: "string \<Rightarrow> string"
  parse_date :: "string \<Rightarrow> int"
  fetchSearchTweets :: "string \<Rightarrow> error + tweet list"
  composeState :: "message \<Rightarrow> error + string"
  composeContext :: "string \<Rightarrow> template \<Rightarrow> string"
  generateText :: "string \<Rightarrow> error + string"
  cleanJsonResponse :: "string \<Rightarrow> error + string"
  truncateToCompleteSentence :: "string \<Rightarrow> nat \<Rightarrow> string"
  sendNoteTweet :: "string \<Rightarrow> error + note_response"
  sendTweet :: "string \<Rightarrow> error + tweet_result option"
  persist :: "event \<Rightarrow> error option"

definition emit :: "event \<Rightarrow> world \<Rightarrow> world" where
  "emit e w = w\<lparr>trace := trace w @ [e]\<rparr>"

definition Date_now :: "env \<Rightarrow> world \<Rightarrow> int \<times> world" where
  "Date_now en w = (clock en (clock_reads w), w\<lparr>clock_reads := Suc (clock_reads w)\<rparr>)"

section \<open>Collection\<close>

text \<open>
  \<^verbatim>\<open>userTweets.filter((tweet) => { const isRecent = Date.now() - tweet.timestamp <
  24 * 60 * 60; return !tweet.isRetweet && isRecent; })\<close>: the clock is read once for
  every tweet.
\<close>

fun filter_valid :: "env \<Rightarrow> tweet list \<Rightarrow> world \<Rightarrow> tweet list \<times> world" where
  "filter_valid en [] w = ([], w)"
| "filter_valid en (t # ts) w =
     (let (now, w1) = Date_now en w;
          isRecent = now - timestamp t < 24 * 60 * 60;
          (rest, w2) = filter_valid en ts w1
      in (if \<not> isRetweet t \<and> isRecent then t # rest else rest, w2))"

text \<open>
  The loop over \<^verbatim>\<open>TARGET_USERS\<close>, with \<^verbatim>\<open>tweetsByUser\<close> as the accumulator. A fetch
  that throws is caught inside the loop, and the loop goes on with the next account.
\<close>

definition search_query :: "string \<Rightarrow> string" where
  "search_query user = ''from:'' @ user"

fun collect_loop :: "env \<Rightarrow> string list \<Rightarrow> tweet list \<Rightarrow> world \<Rightarrow> tweet list \<times> world" where
  "collect_loop en [] tweetsByUser w = (tweetsByUser, w)"
| "collect_loop en (user # users) tweetsByUser w =
     (let w1 = emit (FetchSearchTweets (search_query user)) w in
      case fetchSearchTweets en (search_query user) of
        Inl e \<Rightarrow> collect_loop en users tweetsByUser (emit (LogError e) w1)
      | Inr userTweets \<Rightarrow>
          (let (validTweets, w2) = filter_valid en userTweets w1;
               pushed = (if length validTweets > 0 then tweetsByUser @ validTweets
                         else tweetsByUser)
           in collect_loop en users (pushed @ userTweets) (emit Wait w2)))"

definition collectTargetUsersTweets :: "env \<Rightarrow> world \<Rightarrow> (error + tweet list) \<times> world" where
  "collectTargetUsersTweets en w =
     (case TWITTER_TARGET_USERS en of
        None \<Rightarrow> (Inl TypeError, w)
      | Some TARGET_USERS \<Rightarrow>
          if length TARGET_USERS \<noteq> 0 then
            (if length TARGET_USERS > 0
             then (case collect_loop en TARGET_USERS [] w of (tweets, w1) \<Rightarrow> (Inr tweets, w1))
             else (Inr [], w))
          else (Inr [], w))"

section \<open>Summarization\<close>

text \<open>
  Both arguments of \<^verbatim>\<open>composeState\<close> (the serialised analysis and the variables
  made of its fields) are functions of the analysis, which stands for them in the request.
\<close>

definition generateTrendSummary ::
  "env \<Rightarrow> tweet list \<Rightarrow> string \<Rightarrow> world \<Rightarrow> (error + string) \<times> world" where
  "generateTrendSummary en tweets roomId w =
     (let a = \<lparr> totalTweets = length tweets,
                topHashtags = getTopHashtags (engine_order en) tweets None,
                sentiment_tally = analyzeSentiment tweets,
                mostEngagedTweet = findMostEngagedTweet tweets \<rparr>;
          msg = AnalysisMessage a;
          w1 = emit (ComposeState msg) w
      in case composeState en msg of
           Inl e \<Rightarrow> (Inl e, w1)
         | Inr state \<Rightarrow>
             (let context = composeContext en state DailyAnalysisTemplate;
                  w2 = emit (GenerateText context) w1
              in case generateText en context of
                   Inl e \<Rightarrow> (Inl e, w2)
                 | Inr txt \<Rightarrow> (cleanJsonResponse en txt, w2)))"

definition generateReportContent ::
  "env \<Rightarrow> string \<Rightarrow> string \<Rightarrow> world \<Rightarrow> (error + string) \<times> world" where
  "generateReportContent en summary roomId w =
     (let msg = SummaryMessage summary;
          w1 = emit (ComposeState msg) w
      in case composeState en msg of
           Inl e \<Rightarrow> (Inl e, w1)
         | Inr state \<Rightarrow>
             (let context = composeContext en state DailyReportTemplate;
                  w2 = emit (GenerateText context) w1
              in (generateText en context, w2)))"

section \<open>Publication\<close>

definition sendStandardTweet ::
  "env \<Rightarrow> string \<Rightarrow> world \<Rightarrow> (error + tweet_result option) \<times> world" where
  "sendStandardTweet en content w =
     (let w1 = emit (SendTweet content) w in
      case sendTweet en content of
        Inl e \<Rightarrow> (Inl e, emit (LogError e) w1)
      | Inr None \<Rightarrow> (Inr None, emit (LogError SendError) w1)
      | Inr (Some result) \<Rightarrow> (Inr (Some result), w1))"

definition handleNoteTweet ::
  "env \<Rightarrow> string \<Rightarrow> world \<Rightarrow> (error + tweet_result option) \<times> world" where
  "handleNoteTweet en content w =
     (let w1 = emit (SendNoteTweet content) w in
      case sendNoteTweet en content of
        Inl e \<Rightarrow> (Inl (NoteTweetFailed e), w1)
      | Inr noteTweetResult \<Rightarrow>
          if (case errors noteTweetResult of None \<Rightarrow> False | Some es \<Rightarrow> length es > 0) then
            (let truncateContent =
                   truncateToCompleteSentence en content (MAX_TWEET_LENGTH en)
             in case sendStandardTweet en truncateContent w1 of
                  (Inl e, w2) \<Rightarrow> (Inl (NoteTweetFailed e), w2)
                | (Inr result, w2) \<Rightarrow> (Inr result, w2))
          else
            (case data_result noteTweetResult of
               Broken \<Rightarrow> (Inl (NoteTweetFailed TypeError), w1)
             | Undefined \<Rightarrow> (Inr None, w1)
             | Defined result \<Rightarrow> (Inr (Some result), w1)))"

text \<open>
  \<^verbatim>\<open>createTweetObject\<close> reads \<^verbatim>\<open>tweetResult.rest_id\<close>, \<^verbatim>\<open>client.profile\<close> and
  \<^verbatim>\<open>tweetResult.legacy\<close>: each read of a field of \<^verbatim>\<open>undefined\<close> throws.
\<close>

definition createTweetObject ::
  "env \<Rightarrow> tweet_result option \<Rightarrow> string \<Rightarrow> error + posted" where
  "createTweetObject en tweetResult twitterUsername =
     (case tweetResult of
        None \<Rightarrow> Inl TypeError
      | Some r \<Rightarrow>
          (case client_profile en of
             None \<Rightarrow> Inl TypeError
           | Some p \<Rightarrow>
               (case legacy r of
                  None \<Rightarrow> Inl TypeError
                | Some l \<Rightarrow>
                    Inr \<lparr> posted_id = rest_id r,
                          posted_name = screenName p,
                          posted_username = profile_username p,
                          posted_text = full_text l,
                          posted_conversationId = conversation_id_str l,
                          posted_createdAt = created_at l,
                          posted_timestamp = parse_date en (created_at l),
                          posted_userId = profile_id p,
                          posted_inReplyToStatusId = in_reply_to_status_id_str l,
                          posted_permanentUrl =
                            ''https://twitter.com/'' @ twitterUsername @ ''/status/'' @ rest_id r \<rparr>)))"

text \<open>
  \<^verbatim>\<open>trim\<close>, for the white space among the characters of the model: U+0009 to
  U+000D, U+0020 and U+00A0.
\<close>

definition is_space :: "char \<Rightarrow> bool" where
  "is_space c =
     (c \<in> set [CHR '' '', CHR 0x09, CHR 0x0A, CHR 0x0B, CHR 0x0C, CHR 0x0D, CHR 0xA0])"

definition trim :: "string \<Rightarrow> string" where
  "trim s = rev (dropWhile is_space (rev (dropWhile is_space s)))"

text \<open>
  One awaited call of the cache or of the memory store: the call is made, and its
  failure ends \<^verbatim>\<open>processAndCacheTweet\<close>.
\<close>

definition call :: "env \<Rightarrow> event \<Rightarrow> world \<Rightarrow> (error + unit) \<times> world" where
  "call en e w =
     (case persist en e of
        Some err \<Rightarrow> (Inl err, emit e w)
      | None \<Rightarrow> (Inr (), emit e w))"

definition processAndCacheTweet ::
  "env \<Rightarrow> posted \<Rightarrow> string \<Rightarrow> string \<Rightarrow> world \<Rightarrow> (error + unit) \<times> world" where
  "processAndCacheTweet en tw roomId rawTweetContent w =
     (case client_profile en of
        None \<Rightarrow> (Inl TypeError, w)
      | Some p \<Rightarrow>
          (let (now, w0) = Date_now en w in
           case call en (CacheSet (''twitter/'' @ profile_username p @ ''/lastPost'')
                           (posted_id tw) now) w0 of
             (Inl e, w1) \<Rightarrow> (Inl e, w1)
           | (Inr _, w1) \<Rightarrow>
          (case call en (CacheTweet tw) w1 of
             (Inl e, w2) \<Rightarrow> (Inl e, w2)
           | (Inr _, w2) \<Rightarrow>
          (case call en (EnsureRoomExists roomId) w2 of
             (Inl e, w3) \<Rightarrow> (Inl e, w3)
           | (Inr _, w3) \<Rightarrow>
          (case call en (EnsureParticipantInRoom (agentId en) roomId) w3 of
             (Inl e, w4) \<Rightarrow> (Inl e, w4)
           | (Inr _, w4) \<Rightarrow>
              call en (CreateMemory (stringToUuid en (posted_id tw @ ''-'' @ agentId en))
                         (trim rawTweetContent) (posted_permanentUrl tw) roomId
                         (posted_timestamp tw)) w4)))))"

text \<open>
  \<^verbatim>\<open>postTweet\<close> wraps its whole body in \<^verbatim>\<open>try\<close>/\<^verbatim>\<open>catch\<close>: an error is logged and
  the function returns normally.
\<close>

definition post_body ::
  "env \<Rightarrow> string \<Rightarrow> string \<Rightarrow> string \<Rightarrow> string \<Rightarrow> world \<Rightarrow> (error + unit) \<times> world" where
  "post_body en tweetTextForPosting roomId rawTweetContent twitterUsername w =
     (case (if length tweetTextForPosting > DEFAULT_MAX_TWEET_LENGTH en
            then handleNoteTweet en tweetTextForPosting w
            else sendStandardTweet en tweetTextForPosting w) of
        (Inl e, w1) \<Rightarrow> (Inl e, w1)
      | (Inr result, w1) \<Rightarrow>
          (case createTweetObject en result twitterUsername of
             Inl e \<Rightarrow> (Inl e, w1)
           | Inr tw \<Rightarrow> processAndCacheTweet en tw roomId rawTweetContent w1))"

definition postTweet ::
  "env \<Rightarrow> string \<Rightarrow> string \<Rightarrow> string \<Rightarrow> string \<Rightarrow> world \<Rightarrow> world" where
  "postTweet en tweetTextForPosting roomId rawTweetContent twitterUsername w =
     (case post_body en tweetTextForPosting roomId rawTweetContent twitterUsername w of
        (Inl e, w1) \<Rightarrow> emit (LogError e) w1
      | (Inr _, w1) \<Rightarrow> w1)"

definition postDailyReport :: "env \<Rightarrow> string \<Rightarrow> string \<Rightarrow> world \<Rightarrow> world" where
  "postDailyReport en content roomId w =
     postTweet en content roomId content (TWITTER_USERNAME en) w"

section \<open>The orchestrator\<close>

text \<open>The body of the \<^verbatim>\<open>try\<close> block of \<^verbatim>\<open>runDailyReport\<close>.\<close>

definition report_body :: "env \<Rightarrow> string \<Rightarrow> world \<Rightarrow> (error + unit) \<times> world" where
  "report_body en roomId w =
     (case collectTargetUsersTweets en w of
        (Inl e, w1) \<Rightarrow> (Inl e, w1)
      | (Inr tweetsByUser, w1) \<Rightarrow>
     (case generateTrendSummary en tweetsByUser roomId w1 of
        (Inl e, w2) \<Rightarrow> (Inl e, w2)
      | (Inr summary, w2) \<Rightarrow>
     (case generateReportContent en summary roomId w2 of
        (Inl e, w3) \<Rightarrow> (Inl e, w3)
      | (Inr reportContent, w3) \<Rightarrow>
          (Inr (), emit LogPublished (postDailyReport en reportContent roomId w3)))))"

text \<open>
  \<^verbatim>\<open>if (this.isProcessing || !this.client.twitterConfig.TWITTER_TARGET_USERS) return;\<close>
  A list is an object, and \<^verbatim>\<open>!\<close> of an object is false also when the list is empty:
  the second test holds only for an absent setting. The \<^verbatim>\<open>catch\<close> logs the error and
  the \<^verbatim>\<open>finally\<close> resets the field.
\<close>

definition report_room :: "env \<Rightarrow> string" where
  "report_room en = stringToUuid en (''twitter_dailyreport_room-'' @ TWITTER_USERNAME en)"

definition runDailyReport :: "env \<Rightarrow> world \<Rightarrow> world" where
  "runDailyReport en w =
     (if isProcessing w \<or> TWITTER_TARGET_USERS en = None then w
      else
        (let roomId = report_room en;
             w1 = w\<lparr>isProcessing := True\<rparr>;
             w2 = (case report_body en roomId w1 of
                     (Inl e, w') \<Rightarrow> emit (LogError e) w'
                   | (Inr _, w') \<Rightarrow> w')
         in w2\<lparr>isProcessing := False\<rparr>))"

section \<open>Properties stated over the model\<close>

text \<open>
  The index of the post that \<^verbatim>\<open>findMostEngagedTweet\<close> returns on a list that is not
  empty: no post has a larger sum of likes and retweets, and every later post has a
  smaller one.
\<close>

definition last_max_at :: "tweet list \<Rightarrow> nat \<Rightarrow> bool" where
  "last_max_at tweets i =
     (i < length tweets
      \<and> list_all (\<lambda>t. likes t + retweets t \<le> likes (tweets ! i) + retweets (tweets ! i)) tweets
      \<and> list_all (\<lambda>t. likes t + retweets t < likes (tweets ! i) + retweets (tweets ! i))
           (drop (Suc i) tweets))"


text \<open>
  The order of the hashtags that \<^verbatim>\<open>getTopHashtags\<close> returns. \<open>first_seen\<close> is
  the position of the first occurrence of a hashtag in the flattened list. A hashtag comes
  before another one in the order of the keys of the counting object when it is an array
  index and the other one is not, or is an array index that is not smaller; or when
  neither is an array index and it is seen first. A hashtag is ranked before another one
  when it occurs more often, or as often and before it in the order of the keys.
\<close>

definition first_seen :: "string list \<Rightarrow> string \<Rightarrow> nat" where
  "first_seen tags a = length (takeWhile (\<lambda>x. x \<noteq> a) tags)"

definition key_before :: "string list \<Rightarrow> string \<Rightarrow> string \<Rightarrow> bool" where
  "key_before tags a b =
     (if is_array_index a then (\<not> is_array_index b \<or> index_value a \<le> index_value b)
      else (\<not> is_array_index b \<and> first_seen tags a < first_seen tags b))"

definition ranked_before :: "string list \<Rightarrow> string \<Rightarrow> string \<Rightarrow> bool" where
  "ranked_before tags a b =
     (count_list tags b < count_list tags a
      \<or> (count_list tags a = count_list tags b \<and> key_before tags a b))"

text \<open>No hashtag is a name that the counting object inherits.\<close>

definition no_inherited :: "string list \<Rightarrow> bool" where
  "no_inherited tags = list_all (\<lambda>tag. tag \<notin> set inherited_names) tags"

text \<open>
  The invariant of the reduction: the object has one property for every hashtag seen so
  far but \<^verbatim>\<open>__proto__\<close>, its value is the number of occurrences, and the properties
  stand in the order in which the hashtags were first seen.
\<close>

definition counted :: "string list \<Rightarrow> (string \<times> jsval) list \<Rightarrow> bool" where
  "counted tags acc =
     (distinct (map fst acc)
      \<and> (\<forall>k. map_of acc k =
            (if k \<in> set tags \<and> k \<noteq> ''__proto__'' then Some (Num (count_list tags k)) else None))
      \<and> sorted_wrt (\<lambda>a b. first_seen tags a < first_seen tags b) (map fst acc))"

text \<open>The calls that persist something, and the calls that publish.\<close>

fun is_persist :: "event \<Rightarrow> bool" where
  "is_persist (CacheSet k i n) = True"
| "is_persist (CacheTweet p) = True"
| "is_persist (EnsureRoomExists r) = True"
| "is_persist (EnsureParticipantInRoom a r) = True"
| "is_persist (CreateMemory i t u r c) = True"
| "is_persist _ = False"

fun is_publication :: "event \<Rightarrow> bool" where
  "is_publication (SendNoteTweet c) = True"
| "is_publication (SendTweet c) = True"
| "is_publication _ = False"

text \<open>The platform rejects a long-form post: its answer lists errors.\<close>

definition long_form_rejected :: "note_response \<Rightarrow> bool" where
  "long_form_rejected r = (case errors r of None \<Rightarrow> False | Some es \<Rightarrow> length es > 0)"

text \<open>A publication that succeeds: the platform's answer holds the result.\<close>

definition publish_ok :: "env \<Rightarrow> event \<Rightarrow> bool" where
  "publish_ok en e =
     (case e of
        SendTweet c \<Rightarrow> (case sendTweet en c of Inr (Some r) \<Rightarrow> True | _ \<Rightarrow> False)
      | SendNoteTweet c \<Rightarrow>
          (case sendNoteTweet en c of
             Inr resp \<Rightarrow> \<not> long_form_rejected resp
                          \<and> (case data_result resp of Defined r \<Rightarrow> True | _ \<Rightarrow> False)
           | Inl err \<Rightarrow> False)
      | _ \<Rightarrow> False)"

text \<open>
  A sequence of calls is quiet when none of them persists anything, and guarded when a
  publication succeeds before the first call that persists something.
\<close>

definition quiet :: "event list \<Rightarrow> bool" where
  "quiet evs = list_all (\<lambda>e. \<not> is_persist e) evs"

definition guarded :: "env \<Rightarrow> event list \<Rightarrow> bool" where
  "guarded en evs =
     (quiet evs \<or> list_ex (publish_ok en) (takeWhile (\<lambda>e. \<not> is_persist e) evs))"

text \<open>A step from \<open>w\<close> to \<open>w'\<close> makes the calls \<open>evs\<close> and leaves the guard as it is.\<close>

definition grows :: "world \<Rightarrow> world \<Rightarrow> event list \<Rightarrow> bool" where
  "grows w w' evs = (trace w' = trace w @ evs \<and> isProcessing w' = isProcessing w)"

text \<open>
  The publications that \<^verbatim>\<open>postTweet\<close> attempts for a text: long-form when the text is
  longer than \<^verbatim>\<open>DEFAULT_MAX_TWEET_LENGTH\<close>, followed by one standard publication of the
  text truncated to \<^verbatim>\<open>MAX_TWEET_LENGTH\<close> when the platform rejects the long form;
  otherwise one standard publication of the text.
\<close>

definition expected_attempts :: "env \<Rightarrow> string \<Rightarrow> event list" where
  "expected_attempts en content =
     (if length content > DEFAULT_MAX_TWEET_LENGTH en then
        (case sendNoteTweet en content of
           Inl e \<Rightarrow> [SendNoteTweet content]
         | Inr resp \<Rightarrow>
             if long_form_rejected resp
             then [SendNoteTweet content,
                   SendTweet (truncateToCompleteSentence en content (MAX_TWEET_LENGTH en))]
             else [SendNoteTweet content])
      else [SendTweet content])"

section \<open>Example inputs\<close>

definition example_post :: "string \<Rightarrow> int \<Rightarrow> nat \<Rightarrow> bool \<Rightarrow> string list \<Rightarrow> tweet" where
  "example_post i ts l rt tags =
     \<lparr> tweet_id = i, username = ''alice'', tweet_text = ''A GREAT day'', timestamp = ts,
       likes = l, retweets = 0, hashtags = tags, isRetweet = rt, conversationId = i \<rparr>"

definition recent_post :: tweet where
  "recent_post = example_post ''1'' 999000 5 False [''AI'']"

definition second_post :: tweet where
  "second_post = example_post ''2'' 999500 5 False [''AI'', ''DeFi'']"

definition old_repost :: tweet where
  "old_repost = example_post ''3'' 0 7 True [''AI'']"

definition inherited_tag_post :: tweet where
  "inherited_tag_post = example_post ''4'' 999000 1 False [''AI'', ''constructor'', ''constructor'']"

definition busy :: world where
  "busy = \<lparr> isProcessing = True, clock_reads = 0, trace = [] \<rparr>"

definition idle :: world where
  "idle = \<lparr> isProcessing = False, clock_reads = 0, trace = [] \<rparr>"

text \<open>
  Modelled from the spec: \<^verbatim>\<open>truncateToCompleteSentence\<close> is imported from
  \<^verbatim>\<open>@elizaos/core\<close> and is not among the sources. The spec says: truncate the text to
  the nearest complete sentence within the length ceiling. A text within the ceiling is
  returned as it is; a longer one is cut at the ceiling and then after the last full stop
  that is left (at the ceiling itself when there is none, a case the spec is silent
  on). It is used for the examples only: the model takes the helper as a parameter.
\<close>

definition spec_truncateToCompleteSentence :: "string \<Rightarrow> nat \<Rightarrow> string" where
  "spec_truncateToCompleteSentence s maxLength =
     (if length s \<le> maxLength then s
      else (let cut = take maxLength s in
            if CHR ''.'' \<in> set cut then rev (dropWhile (\<lambda>c. c \<noteq> CHR ''.'') (rev cut))
            else cut))"

definition example_result :: tweet_result where
  "example_result =
     \<lparr> rest_id = ''99'',
       legacy = Some \<lparr> full_text = ''Report.'', conversation_id_str = ''99'',
                       created_at = ''today'', in_reply_to_status_id_str = [] \<rparr> \<rparr>"

text \<open>
  One monitored account with a recent post and an old repost; every collaborator
  answers, the platform rejects a long-form post and accepts a standard one.
\<close>

definition example_env :: env where
  "example_env =
     \<lparr> TWITTER_TARGET_USERS = Some [''alice''],
       TWITTER_USERNAME = ''agent'',
       DEFAULT_MAX_TWEET_LENGTH = 280,
       MAX_TWEET_LENGTH = 280,
       agentId = ''agent-1'',
       client_profile =
         Some \<lparr> screenName = ''Agent'', profile_username = ''agent'', profile_id = ''42'' \<rparr>,
       clock = (\<lambda>n. 1000000),
       engine_order = (\<lambda>es. es),
       stringToUuid = (\<lambda>s. s),
       parse_date = (\<lambda>s. 0),
       fetchSearchTweets =
         (\<lambda>q. if q = ''from:alice''
               then Inr [recent_post, old_repost]
               else Inl FetchError),
       composeState = (\<lambda>m. Inr ''state''),
       composeContext = (\<lambda>s t. s),
       generateText = (\<lambda>c. Inr ''Report.''),
       cleanJsonResponse = (\<lambda>s. Inr s),
       truncateToCompleteSentence = spec_truncateToCompleteSentence,
       sendNoteTweet = (\<lambda>c. Inr \<lparr> errors = Some [''unauthorized''], data_result = Broken \<rparr>),
       sendTweet = (\<lambda>c. Inr (Some example_result)),
       persist = (\<lambda>e. None) \<rparr>"

text \<open>
  Variants of the example: a configured length limit above the default one, a text
  generator that fails, and an empty list of monitored accounts.
\<close>

definition premium_env :: env where
  "premium_env = example_env\<lparr>MAX_TWEET_LENGTH := 4000\<rparr>"

definition failing_env :: env where
  "failing_env = example_env\<lparr>generateText := (\<lambda>c. Inl GenerationError)\<rparr>"

definition no_targets_env :: env where
  "no_targets_env = example_env\<lparr>TWITTER_TARGET_USERS := Some []\<rparr>"

definition long_text :: string where
  "long_text = replicate 281 (CHR ''a'')"

definition long_report :: string where
  "long_report = ''Done. '' @ replicate 300 (CHR ''a'')"

section \<open>Analytics: theorems\<close>

lemma score_class:
  "(score t > 0) = (spec_class t = Positive)"
  "(score t = 0) = (spec_class t = Neutral)"
  "(score t < 0) = (spec_class t = Negative)"
  by (simp_all add: score_def spec_class_def Let_def)

lemma class_counts:
  "length (filter (\<lambda>t. spec_class t = Positive) ts)
     + length (filter (\<lambda>t. spec_class t = Neutral) ts)
     + length (filter (\<lambda>t. spec_class t = Negative) ts) = length ts"
  by (induction ts) (auto intro: sentiment_class.exhaust)

text \<open>
  C7. For every list of posts, the three counts that \<^verbatim>\<open>analyzeSentiment\<close> returns are
  the numbers of posts of the three classes of the specification (positive when the
  lowercased text matches the positive lexicon, otherwise negative when it matches the
  negative lexicon, otherwise neutral), and the counts add up to the length of the list.
\<close>

theorem analyzeSentiment_partition:
  "positive (analyzeSentiment tweets) = length (filter (\<lambda>t. spec_class t = Positive) tweets)
   \<and> neutral (analyzeSentiment tweets) = length (filter (\<lambda>t. spec_class t = Neutral) tweets)
   \<and> negative (analyzeSentiment tweets) = length (filter (\<lambda>t. spec_class t = Negative) tweets)
   \<and> positive (analyzeSentiment tweets) + neutral (analyzeSentiment tweets)
       + negative (analyzeSentiment tweets) = length tweets"
proof -
  have p: "positive (analyzeSentiment tweets)
             = length (filter (\<lambda>t. spec_class t = Positive) tweets)"
    by (simp add: analyzeSentiment_def Let_def filter_map o_def score_class)
  have z: "neutral (analyzeSentiment tweets)
             = length (filter (\<lambda>t. spec_class t = Neutral) tweets)"
    by (simp add: analyzeSentiment_def Let_def filter_map o_def score_class)
  have n: "negative (analyzeSentiment tweets)
             = length (filter (\<lambda>t. spec_class t = Negative) tweets)"
    by (simp add: analyzeSentiment_def Let_def filter_map o_def score_class)
  show ?thesis using p z n class_counts [of tweets] by simp
qed

lemma findMostEngagedTweet_snoc:
  "findMostEngagedTweet (ts @ [x]) = more_engaged (findMostEngagedTweet ts) x"
  by (simp add: findMostEngagedTweet_def)

lemma findMostEngagedTweet_nonempty:
  "tweets \<noteq> [] \<Longrightarrow>
     \<exists>i. last_max_at tweets i \<and> findMostEngagedTweet tweets = Fetched (tweets ! i)"
proof (induction tweets rule: rev_induct)
  case Nil
  then show ?case by simp
next
  case (snoc x ts)
  show ?case
  proof (cases "ts = []")
    case True
    then have "last_max_at (ts @ [x]) 0
               \<and> findMostEngagedTweet (ts @ [x]) = Fetched ((ts @ [x]) ! 0)"
      by (simp add: last_max_at_def findMostEngagedTweet_def more_engaged_def)
    then show ?thesis by blast
  next
    case False
    with snoc.IH obtain i
      where i: "last_max_at ts i" and r: "findMostEngagedTweet ts = Fetched (ts ! i)"
      by blast
    from i have il: "i < length ts" by (simp add: last_max_at_def)
    show ?thesis
    proof (cases "likes (ts ! i) + retweets (ts ! i) > likes x + retweets x")
      case True
      have "last_max_at (ts @ [x]) i" using i True il
        by (simp add: last_max_at_def nth_append)
      moreover have "findMostEngagedTweet (ts @ [x]) = Fetched ((ts @ [x]) ! i)"
        using True r il by (simp add: findMostEngagedTweet_snoc more_engaged_def nth_append)
      ultimately show ?thesis by blast
    next
      case False
      have "list_all (\<lambda>t. likes t + retweets t \<le> likes x + retweets x) ts"
        using i False by (auto simp: last_max_at_def list_all_iff)
      then have "last_max_at (ts @ [x]) (length ts)"
        by (simp add: last_max_at_def)
      moreover have "findMostEngagedTweet (ts @ [x]) = Fetched ((ts @ [x]) ! length ts)"
        using False r by (simp add: findMostEngagedTweet_snoc more_engaged_def)
      ultimately show ?thesis by blast
    qed
  qed
qed

text \<open>
  C5, as the code has it. Over the empty list \<^verbatim>\<open>findMostEngagedTweet\<close> returns the
  sentinel, over a list of one post it returns that post, and over every list that is not
  empty it returns the last post among those whose sum of likes and retweets is maximal:
  the accumulator is kept only when its sum is strictly greater.
\<close>

theorem findMostEngagedTweet_last_maximum:
  "findMostEngagedTweet [] = Sentinel
   \<and> findMostEngagedTweet [t] = Fetched t
   \<and> (tweets \<noteq> [] \<longrightarrow>
        (\<exists>i. last_max_at tweets i \<and> findMostEngagedTweet tweets = Fetched (tweets ! i)))"
proof -
  have "findMostEngagedTweet [] = Sentinel"
    by (simp add: findMostEngagedTweet_def)
  moreover have "findMostEngagedTweet [t] = Fetched t"
    by (simp add: findMostEngagedTweet_def more_engaged_def)
  ultimately show ?thesis using findMostEngagedTweet_nonempty by blast
qed

theorem findMostEngagedTweet_last_maximum_witness:
  "[recent_post, second_post] \<noteq> []
   \<and> (\<exists>i. last_max_at [recent_post, second_post] i
          \<and> findMostEngagedTweet [recent_post, second_post]
              = Fetched ([recent_post, second_post] ! i))"
  using findMostEngagedTweet_last_maximum [of recent_post "[recent_post, second_post]"]
  by simp

text \<open>
  The claim C5 fails on a tie: two posts with the same sum, and the second one is
  returned, not the first.
\<close>

theorem findMostEngagedTweet_tie_counterexample:
  "engagement (Fetched recent_post) = engagement (Fetched second_post)
   \<and> findMostEngagedTweet [recent_post, second_post] = Fetched second_post
   \<and> Fetched second_post \<noteq> Fetched recent_post"
  by (simp add: findMostEngagedTweet_def more_engaged_def recent_post_def second_post_def
      example_post_def)

section \<open>Top hashtags: theorems\<close>

lemma sorted_wrt_insort_key:
  fixes f :: "'a \<Rightarrow> 'k::linorder"
  assumes "sorted_wrt (\<lambda>a b. f a < f b \<or> (f a = f b \<and> Q a b)) ys"
    and "\<forall>y\<in>set ys. Q x y" and "sorted (map f ys)"
  shows "sorted_wrt (\<lambda>a b. f a < f b \<or> (f a = f b \<and> Q a b)) (insort_key f x ys)"
  using assms
proof (induction ys)
  case Nil
  then show ?case by simp
next
  case (Cons y ys)
  show ?case
  proof (cases "f x \<le> f y")
    case True
    have "\<forall>z\<in>set (y # ys). f x < f z \<or> (f x = f z \<and> Q x z)"
      using True Cons.prems(2,3) by (auto simp: le_less) 
    with True Cons.prems(1) show ?thesis by simp
  next
    case False
    have "sorted_wrt (\<lambda>a b. f a < f b \<or> (f a = f b \<and> Q a b)) (insort_key f x ys)"
      using Cons.IH Cons.prems by simp
    moreover have "\<forall>z\<in>set (insort_key f x ys). f y < f z \<or> (f y = f z \<and> Q y z)"
      using False Cons.prems(1) by (auto simp: set_insort_key)
    ultimately show ?thesis using False by simp
  qed
qed

lemma sorted_wrt_sort_key:
  fixes f :: "'a \<Rightarrow> 'k::linorder"
  assumes "sorted_wrt Q xs"
  shows "sorted_wrt (\<lambda>a b. f a < f b \<or> (f a = f b \<and> Q a b)) (sort_key f xs)"
  using assms
proof (induction xs)
  case Nil
  then show ?case by simp
next
  case (Cons x xs)
  have "sorted_wrt (\<lambda>a b. f a < f b \<or> (f a = f b \<and> Q a b)) (sort_key f xs)"
    using Cons by simp
  moreover have "\<forall>y\<in>set (sort_key f xs). Q x y" using Cons.prems by simp
  moreover have "sorted (map f (sort_key f xs))" by (rule sorted_sort_key)
  ultimately show ?case by (simp add: sort_key_def [symmetric] sorted_wrt_insort_key)
qed

lemma first_seen_snoc_old: "a \<in> set tags \<Longrightarrow> first_seen (tags @ [x]) a = first_seen tags a"
  by (simp add: first_seen_def takeWhile_append1)

lemma first_seen_less: "a \<in> set tags \<Longrightarrow> first_seen tags a < length tags"
  by (induction tags) (auto simp: first_seen_def)

lemma first_seen_snoc_new: "x \<notin> set tags \<Longrightarrow> first_seen (tags @ [x]) x = length tags"
  by (induction tags) (auto simp: first_seen_def)

lemma counted_keys: "counted tags acc \<Longrightarrow> set (map fst acc) = set tags - {''__proto__''}"
proof -
  assume c: "counted tags acc"
  have "set (map fst acc) = dom (map_of acc)" by (simp add: dom_map_of_conv_image_fst)
  also have "\<dots> = set tags - {''__proto__''}"
    using c by (auto simp: counted_def dom_def)
  finally show ?thesis .
qed

lemma first_seen_order_snoc:
  assumes "sorted_wrt (\<lambda>a b. first_seen tags a < first_seen tags b) ks" and "set ks \<subseteq> set tags"
  shows "sorted_wrt (\<lambda>a b. first_seen (tags @ [x]) a < first_seen (tags @ [x]) b) ks"
proof (rule sorted_wrt_mono_rel [OF _ assms(1)])
  fix a b
  assume "a \<in> set ks" "b \<in> set ks" "first_seen tags a < first_seen tags b"
  moreover from this assms(2) have "a \<in> set tags" "b \<in> set tags" by auto
  ultimately show "first_seen (tags @ [x]) a < first_seen (tags @ [x]) b"
    by (simp add: first_seen_snoc_old)
qed

lemma counted_step:
  assumes c: "counted tags acc" and x: "x \<notin> set inherited_names"
  shows "counted (tags @ [x]) (count_tag acc x)"
proof -
  from c have d: "distinct (map fst acc)"
    and m: "\<And>k. map_of acc k =
            (if k \<in> set tags \<and> k \<noteq> ''__proto__'' then Some (Num (count_list tags k)) else None)"
    and o: "sorted_wrt (\<lambda>a b. first_seen tags a < first_seen tags b) (map fst acc)"
    by (simp_all add: counted_def)
  have keys: "set (map fst acc) = set tags - {''__proto__''}" using c by (rule counted_keys)
  then have sub: "set (map fst acc) \<subseteq> set tags" by auto
  have o': "sorted_wrt (\<lambda>a b. first_seen (tags @ [x]) a < first_seen (tags @ [x]) b) (map fst acc)"
    using o sub by (rule first_seen_order_snoc)
  show ?thesis
  proof (cases "x \<in> set tags \<and> x \<noteq> ''__proto__''")
    case True
    then have mx: "map_of acc x = Some (Num (count_list tags x))" by (simp add: m)
    then have ct: "count_tag acc x = AList.update x (Num (count_list tags x + 1)) acc"
      by (simp add: count_tag_def)
    have xk: "x \<in> fst ` set acc" using True keys by auto
    have k': "map fst (count_tag acc x) = map fst acc"
      unfolding ct using xk by (simp add: update_keys)
    have "\<And>k. map_of (count_tag acc x) k =
            (if k \<in> set (tags @ [x]) \<and> k \<noteq> ''__proto__''
             then Some (Num (count_list (tags @ [x]) k)) else None)"
      unfolding ct using True by (auto simp: update_conv' m)
    with d o' k' show ?thesis by (simp add: counted_def)
  next
    case False
    then have mx: "map_of acc x = None" by (auto simp: m)
    show ?thesis
    proof (cases "x = ''__proto__''")
      case True
      then have ct: "count_tag acc x = acc" using mx by (simp add: count_tag_def)
      have "\<And>k. map_of acc k =
            (if k \<in> set (tags @ [x]) \<and> k \<noteq> ''__proto__''
             then Some (Num (count_list (tags @ [x]) k)) else None)"
        using True by (auto simp: m)
      with d o' show ?thesis unfolding ct by (simp add: counted_def)
    next
      case np: False
      with False have nx: "x \<notin> set tags" by simp
      have ct: "count_tag acc x = acc @ [(x, Num 1)]"
        using mx np x by (simp add: count_tag_def)
      have xk: "x \<notin> set (map fst acc)" using nx sub by auto
      have d': "distinct (map fst (acc @ [(x, Num 1)]))" using d xk by simp
      have m': "\<And>k. map_of (acc @ [(x, Num 1)]) k =
            (if k \<in> set (tags @ [x]) \<and> k \<noteq> ''__proto__''
             then Some (Num (count_list (tags @ [x]) k)) else None)"
        using np nx by (auto simp: m map_add_def split: option.splits)
      have "\<forall>a\<in>set (map fst acc). first_seen (tags @ [x]) a < first_seen (tags @ [x]) x"
        using sub nx by (auto simp: first_seen_snoc_old first_seen_snoc_new first_seen_less)
      then have "sorted_wrt (\<lambda>a b. first_seen (tags @ [x]) a < first_seen (tags @ [x]) b)
                   (map fst (acc @ [(x, Num 1)]))"
        using o' by (simp add: sorted_wrt_append)
      with d' m' show ?thesis unfolding ct by (simp add: counted_def)
    qed
  qed
qed

lemma counted_foldl:
  "no_inherited tags \<Longrightarrow> counted tags (foldl count_tag [] tags)"
proof (induction tags rule: rev_induct)
  case Nil
  show ?case by (simp add: counted_def)
next
  case (snoc x tags)
  then have "counted tags (foldl count_tag [] tags)" and "x \<notin> set inherited_names"
    by (simp_all add: no_inherited_def)
  then show ?case using counted_step by simp
qed

lemma set_Object_entries: "set (Object_entries obj) = set obj"
  by (auto simp: Object_entries_def)

lemma distinct_Object_entries:
  assumes "distinct (map fst obj)"
  shows "distinct (map fst (Object_entries obj))"
proof -
  from assms have d: "distinct obj" and i: "inj_on fst (set obj)"
    by (simp_all add: distinct_map)
  have "distinct (Object_entries obj)"
    using d by (auto simp: Object_entries_def)
  with i show ?thesis by (simp add: distinct_map set_Object_entries)
qed

lemma key_order_Object_entries:
  assumes "sorted_wrt (\<lambda>a b. first_seen tags a < first_seen tags b) (map fst obj)"
  shows "sorted_wrt (\<lambda>a b. key_before tags (fst a) (fst b)) (Object_entries obj)"
proof -
  let ?ix = "sort_key (\<lambda>e. index_value (fst e)) (filter (\<lambda>e. is_array_index (fst e)) obj)"
  let ?nm = "filter (\<lambda>e. \<not> is_array_index (fst e)) obj"
  have "sorted_wrt (\<lambda>a b. index_value (fst a) \<le> index_value (fst b)) ?ix"
    using sorted_sort_key [of "\<lambda>e. index_value (fst e)"] by (simp add: sorted_map)
  then have 1: "sorted_wrt (\<lambda>a b. key_before tags (fst a) (fst b)) ?ix"
    by (rule sorted_wrt_mono_rel [rotated]) (auto simp: key_before_def)
  have "sorted_wrt (\<lambda>a b. first_seen tags (fst a) < first_seen tags (fst b)) obj"
    using assms by (simp add: sorted_wrt_map)
  then have "sorted_wrt (\<lambda>a b. first_seen tags (fst a) < first_seen tags (fst b)) ?nm"
    by (rule sorted_wrt_filter)
  then have 2: "sorted_wrt (\<lambda>a b. key_before tags (fst a) (fst b)) ?nm"
    by (rule sorted_wrt_mono_rel [rotated]) (auto simp: key_before_def)
  have 3: "\<forall>a\<in>set ?ix. \<forall>b\<in>set ?nm. key_before tags (fst a) (fst b)"
    by (auto simp: key_before_def)
  from 1 2 3 show ?thesis by (simp add: Object_entries_def sorted_wrt_append)
qed

lemma counted_values:
  assumes "counted tags acc" and "e \<in> set acc"
  shows "snd e = Num (count_list tags (fst e))" and "fst e \<in> set tags"
proof -
  from assms(1) have d: "distinct (map fst acc)"
    and m: "\<And>k. map_of acc k =
            (if k \<in> set tags \<and> k \<noteq> ''__proto__'' then Some (Num (count_list tags k)) else None)"
    by (simp_all add: counted_def)
  from assms(2) d have "map_of acc (fst e) = Some (snd e)" by simp
  with m [of "fst e"] show "snd e = Num (count_list tags (fst e))" and "fst e \<in> set tags"
    by (auto split: if_splits)
qed

lemma count_key_ranked:
  assumes q: "sorted_wrt (\<lambda>a b. key_before tags (fst a) (fst b)) es"
    and c: "\<forall>e\<in>set es. snd e = Num (count_list tags (fst e))"
  shows "sorted_wrt (ranked_before tags) (map fst (sort_key count_key es))"
proof -
  have "sorted_wrt (\<lambda>a b. count_key a < count_key b
                         \<or> (count_key a = count_key b \<and> key_before tags (fst a) (fst b)))
          (sort_key count_key es)"
    using q by (rule sorted_wrt_sort_key)
  then have "sorted_wrt (\<lambda>a b. ranked_before tags (fst a) (fst b)) (sort_key count_key es)"
  proof (rule sorted_wrt_mono_rel [rotated])
    fix a b
    assume "a \<in> set (sort_key count_key es)" "b \<in> set (sort_key count_key es)"
    then have "count_key a = - int (count_list tags (fst a))"
      and "count_key b = - int (count_list tags (fst b))"
      using c by (simp_all add: count_key_def)
    moreover assume "count_key a < count_key b
                     \<or> (count_key a = count_key b \<and> key_before tags (fst a) (fst b))"
    ultimately show "ranked_before tags (fst a) (fst b)"
      by (auto simp: ranked_before_def)
  qed
  then show ?thesis by (simp add: sorted_wrt_map)
qed

lemma update_keys_subset:
  "set (map fst (AList.update x v acc)) \<subseteq> insert x (set (map fst acc))"
  by (induction acc) auto

lemma count_tag_keys:
  "set (map fst (count_tag acc x)) \<subseteq> insert x (set (map fst acc))"
proof (cases "map_of acc x")
  case None
  then show ?thesis by (auto simp: count_tag_def)
next
  case (Some v)
  then show ?thesis
    using update_keys_subset [of x _ acc] by (cases v) (simp_all add: count_tag_def)
qed

lemma foldl_count_tag_keys:
  "set (map fst (foldl count_tag acc tags)) \<subseteq> set (map fst acc) \<union> set tags"
proof (induction tags arbitrary: acc)
  case Nil
  show ?case by simp
next
  case (Cons x tags)
  have "set (map fst (foldl count_tag (count_tag acc x) tags))
          \<subseteq> set (map fst (count_tag acc x)) \<union> set tags"
    by (rule Cons.IH)
  moreover have "set (map fst (count_tag acc x)) \<subseteq> insert x (set (map fst acc))"
    by (rule count_tag_keys)
  ultimately have "set (map fst (foldl count_tag (count_tag acc x) tags))
          \<subseteq> insert x (set (map fst acc)) \<union> set tags"
    by blast
  then show ?case by simp
qed

text \<open>
  What \<^verbatim>\<open>getTopHashtags\<close> does on every list of posts: it returns at most \<open>N\<close>
  hashtags (three when no limit is given), and each of them is a hashtag of the input as
  long as the engine's sort returns entries it was given.
\<close>

lemma getTopHashtags_length:
  "length (getTopHashtags engine tweets lim) \<le> (case lim of None \<Rightarrow> 3 | Some n \<Rightarrow> n)"
  by (simp add: getTopHashtags_def Let_def)

lemma getTopHashtags_members:
  assumes "\<And>es. set (engine es) \<subseteq> set es"
  shows "set (getTopHashtags engine tweets lim) \<subseteq> set (flat_hashtags tweets)"
proof -
  define limit where "limit = (case lim of None \<Rightarrow> 3 | Some n \<Rightarrow> n)"
  define es where "es = Object_entries (hashtagCount tweets)"
  have k: "set (map fst es) \<subseteq> set (flat_hashtags tweets)"
    using foldl_count_tag_keys [of "[]" "flat_hashtags tweets"]
    by (simp add: es_def set_Object_entries hashtagCount_def)
  have "set (array_sort engine es) \<subseteq> set es"
    using assms [of es] by (simp add: array_sort_def)
  then have "set (take limit (array_sort engine es)) \<subseteq> set es"
    using set_take_subset [of limit "array_sort engine es"] by blast
  then have "set (map fst (take limit (array_sort engine es))) \<subseteq> set (map fst es)"
    by auto
  with k show ?thesis
    by (simp add: getTopHashtags_def Let_def limit_def es_def)
qed

text \<open>
  What it does when no hashtag is a name that the counting object inherits, whatever
  the engine: no hashtag is returned twice, and the hashtags are ordered by
  non-increasing number of occurrences; among hashtags that occur equally often, those
  that are array indices come first, in ascending numeric order, and the others follow in
  the order in which they were first seen.
\<close>

lemma getTopHashtags_no_inherited:
  assumes "no_inherited (flat_hashtags tweets)"
  shows "set (getTopHashtags engine tweets lim) \<subseteq> set (flat_hashtags tweets)
         \<and> distinct (getTopHashtags engine tweets lim)
         \<and> sorted_wrt (ranked_before (flat_hashtags tweets)) (getTopHashtags engine tweets lim)"
proof -
  define tags where "tags = flat_hashtags tweets"
  define limit where "limit = (case lim of None \<Rightarrow> 3 | Some n \<Rightarrow> n)"
  define es where "es = Object_entries (hashtagCount tweets)"
  have c: "counted tags (hashtagCount tweets)"
    unfolding hashtagCount_def tags_def using assms by (rule counted_foldl)
  have v: "\<forall>e\<in>set es. snd e = Num (count_list tags (fst e))"
    and k: "\<forall>e\<in>set es. fst e \<in> set tags"
    using counted_values [OF c] by (simp_all add: es_def set_Object_entries)
  have "all_numbers es" using v by (simp add: all_numbers_def list_all_iff)
  then have r: "getTopHashtags engine tweets lim = take limit (map fst (sort_key count_key es))"
    by (simp add: getTopHashtags_def array_sort_def limit_def es_def Let_def take_map)
  have "distinct (map fst es)"
    unfolding es_def using c by (intro distinct_Object_entries) (simp add: counted_def)
  then have "distinct (map fst (sort_key count_key es))"
    by (simp add: distinct_map)
  then have d: "distinct (take limit (map fst (sort_key count_key es)))"
    by simp
  have "set (take limit (map fst (sort_key count_key es))) \<subseteq> set (map fst (sort_key count_key es))"
    by (rule set_take_subset)
  also have "\<dots> \<subseteq> set tags" using k by auto
  finally have s: "set (take limit (map fst (sort_key count_key es))) \<subseteq> set tags" .
  have "sorted_wrt (\<lambda>a b. key_before tags (fst a) (fst b)) es"
    unfolding es_def using c by (intro key_order_Object_entries) (simp add: counted_def)
  then have "sorted_wrt (ranked_before tags) (map fst (sort_key count_key es))"
    using v by (rule count_key_ranked)
  then have o: "sorted_wrt (ranked_before tags) (take limit (map fst (sort_key count_key es)))"
    by (rule sorted_wrt_take)
  from s d o show ?thesis unfolding r tags_def by blast
qed

lemma example_names:
  "\<not> is_array_index ''AI''" "\<not> is_array_index ''DeFi''" "\<not> is_array_index ''constructor''"
  by (simp_all add: is_array_index_def digit_chars_def)

lemmas hashtag_defs = getTopHashtags_def hashtagCount_def flat_hashtags_def count_tag_def
  inherited_names_def Object_entries_def array_sort_def all_numbers_def all_compare_equal_def
  count_key_def

text \<open>
  The scenario of the specification: two posts with the hashtags \<^verbatim>\<open>AI\<close> and
  \<^verbatim>\<open>AI\<close>, \<^verbatim>\<open>DeFi\<close>.
\<close>

lemma example_top_hashtags:
  "getTopHashtags engine [recent_post, second_post] None = [''AI'', ''DeFi'']"
  using example_names
  by (simp add: hashtag_defs recent_post_def second_post_def example_post_def)

text \<open>
  C6 fails on the code: the counting object is an object literal, and a hashtag that
  names a property it inherits gets a string for its count. In one post with the hashtags \<^verbatim>\<open>AI\<close>,
  \<^verbatim>\<open>constructor\<close>, \<^verbatim>\<open>constructor\<close> the count of \<^verbatim>\<open>constructor\<close> is a string, the
  comparison gives \<^verbatim>\<open>NaN\<close> and the sort leaves the entries in place: the hashtag that
  occurs once is returned before the hashtag that occurs twice, whatever the engine.
\<close>

theorem getTopHashtags_inherited_name_unranked:
  "getTopHashtags engine [inherited_tag_post] None = [''AI'', ''constructor'']
   \<and> count_list (flat_hashtags [inherited_tag_post]) ''AI''
       < count_list (flat_hashtags [inherited_tag_post]) ''constructor''"
  using example_names
  by (simp add: hashtag_defs inherited_tag_post_def example_post_def)

section \<open>Stages and their calls: lemmas\<close>

lemma grows_refl: "grows w w []"
  by (simp add: grows_def)

lemma grows_trans: "grows w w1 a \<Longrightarrow> grows w1 w2 b \<Longrightarrow> grows w w2 (a @ b)"
  by (simp add: grows_def)

lemma grows_emit: "grows w (emit e w) [e]"
  by (simp add: grows_def emit_def)

lemma grows_Date_now: "grows w (snd (Date_now en w)) []"
  by (simp add: grows_def Date_now_def)

lemma grows_filter_valid: "grows w (snd (filter_valid en ts w)) []"
proof (induction ts arbitrary: w)
  case Nil
  show ?case by (simp add: grows_def)
next
  case (Cons t ts)
  have a: "grows w (snd (Date_now en w)) []" by (rule grows_Date_now)
  have b: "grows (snd (Date_now en w)) (snd (filter_valid en ts (snd (Date_now en w)))) []"
    by (rule Cons.IH)
  have "snd (filter_valid en (t # ts) w) = snd (filter_valid en ts (snd (Date_now en w)))"
    by (simp add: split_beta Let_def)
  with grows_trans [OF a b] show ?case by simp
qed

lemma quiet_simps:
  "quiet []"
  "quiet (a @ b) = (quiet a \<and> quiet b)"
  "quiet (e # a) = (\<not> is_persist e \<and> quiet a)"
  by (simp_all add: quiet_def)

lemma collect_loop_Inl:
  "fetchSearchTweets en (search_query u) = Inl e \<Longrightarrow>
   collect_loop en (u # us) acc w
     = collect_loop en us acc (emit (LogError e) (emit (FetchSearchTweets (search_query u)) w))"
  by (simp add: Let_def)

lemma collect_loop_Inr:
  "fetchSearchTweets en (search_query u) = Inr ts \<Longrightarrow>
   collect_loop en (u # us) acc w
     = collect_loop en us
         ((if length (fst (filter_valid en ts (emit (FetchSearchTweets (search_query u)) w))) > 0
           then acc @ fst (filter_valid en ts (emit (FetchSearchTweets (search_query u)) w))
           else acc) @ ts)
         (emit Wait (snd (filter_valid en ts (emit (FetchSearchTweets (search_query u)) w))))"
  by (simp add: Let_def split_beta)

lemma grows_collect_loop:
  "\<exists>evs. grows w (snd (collect_loop en users acc w)) evs \<and> quiet evs"
proof (induction users arbitrary: acc w)
  case Nil
  show ?case using grows_refl quiet_simps(1) by auto
next
  case (Cons u us)
  let ?w1 = "emit (FetchSearchTweets (search_query u)) w"
  have g1: "grows w ?w1 [FetchSearchTweets (search_query u)]" by (rule grows_emit)
  show ?case
  proof (cases "fetchSearchTweets en (search_query u)")
    case (Inl e)
    let ?w2 = "emit (LogError e) ?w1"
    have g2: "grows ?w1 ?w2 [LogError e]" by (rule grows_emit)
    from Cons.IH [of ?w2 acc] obtain evs
      where g3: "grows ?w2 (snd (collect_loop en us acc ?w2)) evs" and q: "quiet evs" by blast
    have "grows w (snd (collect_loop en (u # us) acc w))
            (([FetchSearchTweets (search_query u)] @ [LogError e]) @ evs)"
      unfolding collect_loop_Inl [OF Inl] by (rule grows_trans [OF grows_trans [OF g1 g2] g3])
    moreover have "quiet (([FetchSearchTweets (search_query u)] @ [LogError e]) @ evs)"
      using q by (simp add: quiet_simps)
    ultimately show ?thesis by blast
  next
    case (Inr ts)
    let ?w2 = "snd (filter_valid en ts ?w1)"
    let ?w3 = "emit Wait ?w2"
    let ?acc = "(if length (fst (filter_valid en ts ?w1)) > 0
                 then acc @ fst (filter_valid en ts ?w1) else acc) @ ts"
    have g2: "grows ?w1 ?w2 []" by (rule grows_filter_valid)
    have g3: "grows ?w2 ?w3 [Wait]" by (rule grows_emit)
    from Cons.IH [of ?w3 ?acc] obtain evs
      where g4: "grows ?w3 (snd (collect_loop en us ?acc ?w3)) evs" and q: "quiet evs" by blast
    have "grows w (snd (collect_loop en (u # us) acc w))
            ((([FetchSearchTweets (search_query u)] @ []) @ [Wait]) @ evs)"
      unfolding collect_loop_Inr [OF Inr]
      by (rule grows_trans [OF grows_trans [OF grows_trans [OF g1 g2] g3] g4])
    moreover have "quiet ((([FetchSearchTweets (search_query u)] @ []) @ [Wait]) @ evs)"
      using q by (simp add: quiet_simps)
    ultimately show ?thesis by blast
  qed
qed

lemma grows_collect:
  "\<exists>evs. grows w (snd (collectTargetUsersTweets en w)) evs \<and> quiet evs"
proof (cases "TWITTER_TARGET_USERS en")
  case None
  then show ?thesis using grows_refl quiet_simps(1)
    by (auto simp: collectTargetUsersTweets_def)
next
  case (Some us)
  show ?thesis
  proof (cases "us = []")
    case True
    with Some show ?thesis using grows_refl quiet_simps(1)
      by (auto simp: collectTargetUsersTweets_def)
  next
    case False
    with Some have "snd (collectTargetUsersTweets en w) = snd (collect_loop en us [] w)"
      by (simp add: collectTargetUsersTweets_def split_beta)
    then show ?thesis using grows_collect_loop [of w en us "[]"] by simp
  qed
qed

lemma grows_generateTrendSummary:
  "\<exists>evs. grows w (snd (generateTrendSummary en tweets roomId w)) evs \<and> quiet evs"
proof -
  define msg where "msg = AnalysisMessage \<lparr> totalTweets = length tweets,
                topHashtags = getTopHashtags (engine_order en) tweets None,
                sentiment_tally = analyzeSentiment tweets,
                mostEngagedTweet = findMostEngagedTweet tweets \<rparr>"
  let ?w1 = "emit (ComposeState msg) w"
  have g1: "grows w ?w1 [ComposeState msg]" by (rule grows_emit)
  show ?thesis
  proof (cases "composeState en msg")
    case (Inl e)
    then have "snd (generateTrendSummary en tweets roomId w) = ?w1"
      by (simp add: generateTrendSummary_def Let_def msg_def)
    with g1 show ?thesis by (auto simp: quiet_simps intro!: exI [of _ "[ComposeState msg]"])
  next
    case (Inr st)
    let ?c = "composeContext en st DailyAnalysisTemplate"
    have g2: "grows ?w1 (emit (GenerateText ?c) ?w1) [GenerateText ?c]" by (rule grows_emit)
    from Inr have "snd (generateTrendSummary en tweets roomId w) = emit (GenerateText ?c) ?w1"
      by (simp add: generateTrendSummary_def Let_def msg_def split: sum.splits)
    with grows_trans [OF g1 g2] show ?thesis
      by (auto simp: quiet_simps intro!: exI [of _ "[ComposeState msg] @ [GenerateText ?c]"])
  qed
qed

lemma grows_generateReportContent:
  "\<exists>evs. grows w (snd (generateReportContent en summary roomId w)) evs \<and> quiet evs"
proof -
  define msg where "msg = SummaryMessage summary"
  let ?w1 = "emit (ComposeState msg) w"
  have g1: "grows w ?w1 [ComposeState msg]" by (rule grows_emit)
  show ?thesis
  proof (cases "composeState en msg")
    case (Inl e)
    then have "snd (generateReportContent en summary roomId w) = ?w1"
      by (simp add: generateReportContent_def Let_def msg_def)
    with g1 show ?thesis by (auto simp: quiet_simps intro!: exI [of _ "[ComposeState msg]"])
  next
    case (Inr st)
    let ?c = "composeContext en st DailyReportTemplate"
    have g2: "grows ?w1 (emit (GenerateText ?c) ?w1) [GenerateText ?c]" by (rule grows_emit)
    from Inr have "snd (generateReportContent en summary roomId w) = emit (GenerateText ?c) ?w1"
      by (simp add: generateReportContent_def Let_def msg_def split: sum.splits)
    with grows_trans [OF g1 g2] show ?thesis
      by (auto simp: quiet_simps intro!: exI [of _ "[ComposeState msg] @ [GenerateText ?c]"])
  qed
qed

lemma sendStandardTweet_events:
  "\<exists>evs. grows w (snd (sendStandardTweet en c w)) evs \<and> quiet evs
         \<and> filter is_publication evs = [SendTweet c]
         \<and> (fst (sendStandardTweet en c w) \<in> range Inl \<union> {Inr None} \<or> list_ex (publish_ok en) evs)"
proof (cases "sendTweet en c")
  case (Inl e)
  have "grows w (emit (LogError e) (emit (SendTweet c) w)) ([SendTweet c] @ [LogError e])"
    by (rule grows_trans [OF grows_emit grows_emit])
  with Inl show ?thesis
    by (auto simp: sendStandardTweet_def Let_def quiet_simps
        intro!: exI [of _ "[SendTweet c] @ [LogError e]"])
next
  case (Inr r)
  show ?thesis
  proof (cases r)
    case None
    have "grows w (emit (LogError SendError) (emit (SendTweet c) w))
            ([SendTweet c] @ [LogError SendError])"
      by (rule grows_trans [OF grows_emit grows_emit])
    with Inr None show ?thesis
      by (auto simp: sendStandardTweet_def Let_def quiet_simps
          intro!: exI [of _ "[SendTweet c] @ [LogError SendError]"])
  next
    case (Some x)
    have "grows w (emit (SendTweet c) w) [SendTweet c]" by (rule grows_emit)
    with Inr Some show ?thesis
      by (auto simp: sendStandardTweet_def Let_def quiet_simps publish_ok_def
          intro!: exI [of _ "[SendTweet c]"])
  qed
qed

lemma handleNoteTweet_events:
  "\<exists>evs. grows w (snd (handleNoteTweet en c w)) evs \<and> quiet evs
         \<and> filter is_publication evs =
             (case sendNoteTweet en c of
                Inl e \<Rightarrow> [SendNoteTweet c]
              | Inr resp \<Rightarrow>
                  if long_form_rejected resp
                  then [SendNoteTweet c,
                        SendTweet (truncateToCompleteSentence en c (MAX_TWEET_LENGTH en))]
                  else [SendNoteTweet c])
         \<and> (fst (handleNoteTweet en c w) \<in> range Inl \<union> {Inr None} \<or> list_ex (publish_ok en) evs)"
proof -
  let ?w1 = "emit (SendNoteTweet c) w"
  have g1: "grows w ?w1 [SendNoteTweet c]" by (rule grows_emit)
  show ?thesis
  proof (cases "sendNoteTweet en c")
    case (Inl e)
    with g1 show ?thesis
      by (auto simp: handleNoteTweet_def Let_def quiet_simps intro!: exI [of _ "[SendNoteTweet c]"])
  next
    case (Inr resp)
    show ?thesis
    proof (cases "long_form_rejected resp")
      case True
      let ?t = "truncateToCompleteSentence en c (MAX_TWEET_LENGTH en)"
      from sendStandardTweet_events [of ?w1 en ?t] obtain evs where
        g2: "grows ?w1 (snd (sendStandardTweet en ?t ?w1)) evs" and q: "quiet evs"
        and f: "filter is_publication evs = [SendTweet ?t]"
        and ok: "fst (sendStandardTweet en ?t ?w1) \<in> range Inl \<union> {Inr None} \<or> list_ex (publish_ok en) evs"
        by blast
      have s: "snd (handleNoteTweet en c w) = snd (sendStandardTweet en ?t ?w1)"
        using Inr True
        by (simp add: handleNoteTweet_def Let_def long_form_rejected_def split: prod.splits sum.splits)
      have r: "fst (handleNoteTweet en c w) \<in> range Inl \<union> {Inr None}
               \<or> fst (handleNoteTweet en c w) = fst (sendStandardTweet en ?t ?w1)"
        using Inr True
        by (auto simp add: handleNoteTweet_def Let_def long_form_rejected_def split: prod.splits sum.splits)
      have "grows w (snd (handleNoteTweet en c w)) ([SendNoteTweet c] @ evs)"
        unfolding s by (rule grows_trans [OF g1 g2])
      moreover have "quiet ([SendNoteTweet c] @ evs)" using q by (simp add: quiet_simps)
      moreover have "filter is_publication ([SendNoteTweet c] @ evs) = [SendNoteTweet c, SendTweet ?t]"
        using f by simp
      moreover have "fst (handleNoteTweet en c w) \<in> range Inl \<union> {Inr None}
                     \<or> list_ex (publish_ok en) ([SendNoteTweet c] @ evs)"
        using r ok by auto
      ultimately show ?thesis using Inr True by (intro exI [of _ "[SendNoteTweet c] @ evs"]) simp
    next
      case False
      with Inr g1 show ?thesis
        by (cases "data_result resp")
           (auto simp: handleNoteTweet_def Let_def quiet_simps publish_ok_def long_form_rejected_def
              intro!: exI [of _ "[SendNoteTweet c]"])
    qed
  qed
qed

lemma grows_call: "grows w (snd (call en e w)) [e]"
  using grows_emit [of w e] by (simp add: call_def split: option.splits)

lemma processAndCacheTweet_events:
  "\<exists>evs. grows w (snd (processAndCacheTweet en tw roomId raw w)) evs
         \<and> filter is_publication evs = []"
proof (cases "client_profile en")
  case None
  then show ?thesis using grows_refl [of w] by (auto simp: processAndCacheTweet_def)
next
  case (Some p)
  define w0 where "w0 = snd (Date_now en w)"
  define e1 where "e1 = CacheSet (''twitter/'' @ profile_username p @ ''/lastPost'')
                           (posted_id tw) (fst (Date_now en w))"
  define e2 where "e2 = CacheTweet tw"
  define e3 where "e3 = EnsureRoomExists roomId"
  define e4 where "e4 = EnsureParticipantInRoom (agentId en) roomId"
  define e5 where "e5 = CreateMemory (stringToUuid en (posted_id tw @ ''-'' @ agentId en))
                         (trim raw) (posted_permanentUrl tw) roomId (posted_timestamp tw)"
  define w1 where "w1 = snd (call en e1 w0)"
  define w2 where "w2 = snd (call en e2 w1)"
  define w3 where "w3 = snd (call en e3 w2)"
  define w4 where "w4 = snd (call en e4 w3)"
  define w5 where "w5 = snd (call en e5 w4)"
  have g0: "grows w w0 []" unfolding w0_def by (rule grows_Date_now)
  have g1: "grows w w1 [e1]" using grows_trans [OF g0 grows_call [of w0 en e1]] by (simp add: w1_def)
  have g2: "grows w w2 [e1, e2]" using grows_trans [OF g1 grows_call [of w1 en e2]] by (simp add: w2_def)
  have g3: "grows w w3 [e1, e2, e3]" using grows_trans [OF g2 grows_call [of w2 en e3]] by (simp add: w3_def)
  have g4: "grows w w4 [e1, e2, e3, e4]" using grows_trans [OF g3 grows_call [of w3 en e4]] by (simp add: w4_def)
  have g5: "grows w w5 [e1, e2, e3, e4, e5]" using grows_trans [OF g4 grows_call [of w4 en e5]] by (simp add: w5_def)
  have "snd (processAndCacheTweet en tw roomId raw w) \<in> {w1, w2, w3, w4, w5}"
    using Some
    by (simp add: processAndCacheTweet_def split_beta w0_def w1_def w2_def w3_def w4_def w5_def
        e1_def e2_def e3_def e4_def e5_def split: prod.splits sum.splits)
  moreover have "filter is_publication [e1, e2, e3, e4, e5] = []"
    by (simp add: e1_def e2_def e3_def e4_def e5_def)
  ultimately show ?thesis using g1 g2 g3 g4 g5
    by (auto simp: e1_def e2_def e3_def e4_def e5_def)
qed

lemma guarded_quiet: "quiet evs \<Longrightarrow> guarded en evs"
  by (simp add: guarded_def)

lemma guarded_after_publish:
  "quiet a \<Longrightarrow> list_ex (publish_ok en) a \<Longrightarrow> guarded en (a @ b)"
  by (simp add: guarded_def quiet_def list_all_iff takeWhile_append2 list_ex_iff) blast

lemma guarded_prepend_quiet:
  "quiet a \<Longrightarrow> guarded en b \<Longrightarrow> guarded en (a @ b)"
  by (auto simp add: guarded_def quiet_def list_all_iff takeWhile_append2 list_ex_iff)

lemma guarded_append_quiet:
  assumes "guarded en a" and "quiet b"
  shows "guarded en (a @ b)"
proof (cases "quiet a")
  case True
  with assms(2) show ?thesis by (simp add: guarded_def quiet_def)
next
  case False
  then obtain x where x: "x \<in> set a" "\<not> \<not> is_persist x"
    by (auto simp: quiet_def list_all_iff)
  from False assms(1) have "list_ex (publish_ok en) (takeWhile (\<lambda>e. \<not> is_persist e) a)"
    by (simp add: guarded_def)
  moreover have "takeWhile (\<lambda>e. \<not> is_persist e) (a @ b) = takeWhile (\<lambda>e. \<not> is_persist e) a"
    using x by (rule takeWhile_append1)
  ultimately show ?thesis by (simp add: guarded_def)
qed

lemma createTweetObject_None: "createTweetObject en None u = Inl TypeError"
  by (simp add: createTweetObject_def)

lemma post_body_events:
  "\<exists>evs. grows w (snd (post_body en content roomId raw user w)) evs \<and> guarded en evs
         \<and> filter is_publication evs = expected_attempts en content"
proof -
  define pub where "pub = (if length content > DEFAULT_MAX_TWEET_LENGTH en
            then handleNoteTweet en content w else sendStandardTweet en content w)"
  have "\<exists>a. grows w (snd pub) a \<and> quiet a \<and> filter is_publication a = expected_attempts en content
          \<and> (fst pub \<in> range Inl \<union> {Inr None} \<or> list_ex (publish_ok en) a)"
    using handleNoteTweet_events [of w en content] sendStandardTweet_events [of w en content]
    by (simp add: pub_def expected_attempts_def)
  then obtain a where g: "grows w (snd pub) a" and q: "quiet a"
    and f: "filter is_publication a = expected_attempts en content"
    and ok: "fst pub \<in> range Inl \<union> {Inr None} \<or> list_ex (publish_ok en) a"
    by blast
  have pb: "post_body en content roomId raw user w =
     (case pub of
        (Inl e, w1) \<Rightarrow> (Inl e, w1)
      | (Inr result, w1) \<Rightarrow>
          (case createTweetObject en result user of
             Inl e \<Rightarrow> (Inl e, w1)
           | Inr tw \<Rightarrow> processAndCacheTweet en tw roomId raw w1))"
    by (simp add: post_body_def pub_def)
  show ?thesis
  proof (cases "\<exists>result tw. fst pub = Inr result \<and> createTweetObject en result user = Inr tw")
    case False
    then have "snd (post_body en content roomId raw user w) = snd pub"
      unfolding pb by (cases pub) (auto split: sum.splits)
    with g q f show ?thesis using guarded_quiet by auto
  next
    case True
    then obtain result tw where r: "fst pub = Inr result"
      and c: "createTweetObject en result user = Inr tw" by blast
    from c have "result \<noteq> None" by (cases result) (auto simp: createTweetObject_None)
    with r ok have p: "list_ex (publish_ok en) a" by auto
    from r c have s: "snd (post_body en content roomId raw user w)
                   = snd (processAndCacheTweet en tw roomId raw (snd pub))"
      unfolding pb by (cases pub) auto
    from processAndCacheTweet_events [of "snd pub" en tw roomId raw] obtain b where
      g2: "grows (snd pub) (snd (processAndCacheTweet en tw roomId raw (snd pub))) b"
      and f2: "filter is_publication b = []" by blast
    have "grows w (snd (post_body en content roomId raw user w)) (a @ b)"
      unfolding s by (rule grows_trans [OF g g2])
    moreover have "guarded en (a @ b)" using q p by (rule guarded_after_publish)
    moreover have "filter is_publication (a @ b) = expected_attempts en content"
      using f f2 by simp
    ultimately show ?thesis by blast
  qed
qed

lemma postTweet_events:
  "\<exists>evs. grows w (postTweet en content roomId raw user w) evs \<and> guarded en evs
         \<and> filter is_publication evs = expected_attempts en content"
proof -
  from post_body_events [of w en content roomId raw user] obtain a where
    g: "grows w (snd (post_body en content roomId raw user w)) a" and q: "guarded en a"
    and f: "filter is_publication a = expected_attempts en content" by blast
  show ?thesis
  proof (cases "fst (post_body en content roomId raw user w)")
    case (Inl e)
    then have s: "postTweet en content roomId raw user w
                = emit (LogError e) (snd (post_body en content roomId raw user w))"
      by (simp add: postTweet_def split_beta)
    have "grows w (postTweet en content roomId raw user w) (a @ [LogError e])"
      unfolding s by (rule grows_trans [OF g grows_emit])
    moreover have "guarded en (a @ [LogError e])"
      using q by (rule guarded_append_quiet) (simp add: quiet_simps)
    moreover have "filter is_publication (a @ [LogError e]) = expected_attempts en content"
      using f by simp
    ultimately show ?thesis by blast
  next
    case (Inr u)
    then have "postTweet en content roomId raw user w
                = snd (post_body en content roomId raw user w)"
      by (simp add: postTweet_def split_beta)
    with g q f show ?thesis by auto
  qed
qed

lemma report_body_events:
  "\<exists>evs. grows w (snd (report_body en roomId w)) evs \<and> guarded en evs"
proof -
  from grows_collect [of w en] obtain c where
    gc: "grows w (snd (collectTargetUsersTweets en w)) c" and qc: "quiet c" by blast
  show ?thesis
  proof (cases "fst (collectTargetUsersTweets en w)")
    case (Inl e)
    then have "snd (report_body en roomId w) = snd (collectTargetUsersTweets en w)"
      by (simp add: report_body_def split_beta)
    with gc qc show ?thesis using guarded_quiet by auto
  next
    case (Inr tweets)
    define w1 where "w1 = snd (collectTargetUsersTweets en w)"
    from grows_generateTrendSummary [of w1 en tweets roomId] obtain s where
      gs: "grows w1 (snd (generateTrendSummary en tweets roomId w1)) s" and qs: "quiet s" by blast
    show ?thesis
    proof (cases "fst (generateTrendSummary en tweets roomId w1)")
      case (Inl e)
      with Inr have "snd (report_body en roomId w) = snd (generateTrendSummary en tweets roomId w1)"
        by (simp add: report_body_def split_beta w1_def)
      moreover have "grows w (snd (generateTrendSummary en tweets roomId w1)) (c @ s)"
        using gc gs unfolding w1_def by (rule grows_trans)
      moreover have "guarded en (c @ s)" using qc qs by (simp add: guarded_quiet quiet_simps)
      ultimately show ?thesis by auto
    next
      case summary: (Inr summary)
      define w2 where "w2 = snd (generateTrendSummary en tweets roomId w1)"
      from grows_generateReportContent [of w2 en summary roomId] obtain r where
        gr: "grows w2 (snd (generateReportContent en summary roomId w2)) r" and qr: "quiet r"
        by blast
      have g2: "grows w (snd (generateReportContent en summary roomId w2)) ((c @ s) @ r)"
        using grows_trans [OF grows_trans [OF gc [folded w1_def] gs [folded w2_def]] gr] .
      have q2: "quiet ((c @ s) @ r)" using qc qs qr by (simp add: quiet_simps)
      show ?thesis
      proof (cases "fst (generateReportContent en summary roomId w2)")
        case (Inl e)
        with Inr summary have "snd (report_body en roomId w)
              = snd (generateReportContent en summary roomId w2)"
          by (simp add: report_body_def split_beta w1_def w2_def)
        with g2 q2 show ?thesis using guarded_quiet by auto
      next
        case content: (Inr content)
        define w3 where "w3 = snd (generateReportContent en summary roomId w2)"
        from postTweet_events [of w3 en content roomId content "TWITTER_USERNAME en"]
        obtain p where gp: "grows w3 (postDailyReport en content roomId w3) p"
          and qp: "guarded en p" by (auto simp: postDailyReport_def)
        from Inr summary content have s: "snd (report_body en roomId w)
              = emit LogPublished (postDailyReport en content roomId w3)"
          by (simp add: report_body_def split_beta w1_def w2_def w3_def)
        have "grows w (snd (report_body en roomId w)) ((((c @ s) @ r) @ p) @ [LogPublished])"
          unfolding s
          by (rule grows_trans [OF grows_trans [OF g2 [folded w3_def] gp] grows_emit])
        moreover have "guarded en ((((c @ s) @ r) @ p) @ [LogPublished])"
          by (rule guarded_append_quiet [OF guarded_prepend_quiet [OF q2 qp]])
             (simp add: quiet_simps)
        ultimately show ?thesis by blast
      qed
    qed
  qed
qed

lemma runDailyReport_events:
  "\<exists>evs. trace (runDailyReport en w) = trace w @ evs \<and> guarded en evs"
proof (cases "isProcessing w \<or> TWITTER_TARGET_USERS en = None")
  case True
  then have "runDailyReport en w = w" by (simp add: runDailyReport_def)
  then show ?thesis using guarded_quiet [of "[]" en] by (simp add: quiet_simps)
next
  case False
  define w1 where "w1 = w\<lparr>isProcessing := True\<rparr>"
  define roomId where "roomId = report_room en"
  from False have np: "\<not> isProcessing w" and nt: "TWITTER_TARGET_USERS en \<noteq> None" by auto
  have run: "runDailyReport en w =
     (case report_body en roomId w1 of
                     (Inl e, w') \<Rightarrow> emit (LogError e) w'
                   | (Inr _, w') \<Rightarrow> w')\<lparr>isProcessing := False\<rparr>"
    unfolding runDailyReport_def Let_def roomId_def w1_def using np nt by auto
  from report_body_events [of w1 en roomId] obtain b where
    g: "grows w1 (snd (report_body en roomId w1)) b" and q: "guarded en b" by blast
  have t1: "trace w1 = trace w" by (simp add: w1_def)
  show ?thesis
  proof (cases "fst (report_body en roomId w1)")
    case (Inl e)
    then have "runDailyReport en w
        = (emit (LogError e) (snd (report_body en roomId w1)))\<lparr>isProcessing := False\<rparr>"
      unfolding run by (simp add: split_beta)
    then have "trace (runDailyReport en w) = trace w @ (b @ [LogError e])"
      using g t1 by (simp add: grows_def emit_def)
    moreover have "guarded en (b @ [LogError e])"
      using q by (rule guarded_append_quiet) (simp add: quiet_simps)
    ultimately show ?thesis by blast
  next
    case (Inr u)
    then have "runDailyReport en w
        = (snd (report_body en roomId w1))\<lparr>isProcessing := False\<rparr>"
      unfolding run by (simp add: split_beta)
    then have "trace (runDailyReport en w) = trace w @ b"
      using g t1 by (simp add: grows_def)
    with q show ?thesis by blast
  qed
qed










section \<open>Evaluation of the examples\<close>

lemmas example_defs = example_env_def example_post_def recent_post_def second_post_def
  old_repost_def idle_def busy_def example_result_def premium_env_def failing_env_def
  no_targets_env_def

lemmas stage_defs = runDailyReport_def report_body_def report_room_def
  collectTargetUsersTweets_def generateTrendSummary_def generateReportContent_def
  postDailyReport_def postTweet_def post_body_def sendStandardTweet_def handleNoteTweet_def
  createTweetObject_def processAndCacheTweet_def call_def emit_def Date_now_def search_query_def
  trim_def is_space_def Let_def

lemma spec_truncate_length: "length (spec_truncateToCompleteSentence s n) \<le> n"
proof -
  have "length (rev (dropWhile (\<lambda>c. c \<noteq> CHR ''.'') (rev (take n s)))) \<le> length (take n s)"
    using length_dropWhile_le [of "\<lambda>c. c \<noteq> CHR ''.''" "rev (take n s)"] by simp
  then show ?thesis by (simp add: spec_truncateToCompleteSentence_def Let_def)
qed

lemma long_report_truncated:
  "spec_truncateToCompleteSentence long_report 280 = ''Done.''"
  by code_simp

lemma long_report_attempts:
  "expected_attempts example_env long_report = [SendNoteTweet long_report, SendTweet ''Done.'']"
proof -
  have "length long_report > 280" by (simp add: long_report_def)
  then show ?thesis
    using long_report_truncated
    by (simp add: expected_attempts_def example_env_def long_form_rejected_def)
qed

lemma example_run_persists:
  "list_ex is_persist (trace (runDailyReport example_env idle))"
  by (simp add: stage_defs example_defs)

lemma failed_run_quiet:
  "fst (report_body failing_env (report_room failing_env) (idle\<lparr>isProcessing := True\<rparr>))
     = Inl GenerationError
   \<and> \<not> list_ex is_persist (trace (runDailyReport failing_env idle))"
  by (simp add: stage_defs example_defs)

section \<open>The in-flight guard: theorems\<close>

text \<open>
  C3. When the field \<^verbatim>\<open>isProcessing\<close> is set, \<^verbatim>\<open>runDailyReport\<close> returns at once: the
  state is the one it was called in, so no call was made and nothing was published.
\<close>

theorem runDailyReport_in_flight_noop:
  "isProcessing w \<Longrightarrow> runDailyReport en w = w"
  by (simp add: runDailyReport_def)

theorem runDailyReport_in_flight_noop_witness:
  "isProcessing busy \<and> runDailyReport example_env busy = busy"
  using runDailyReport_in_flight_noop [of busy example_env] by (simp add: busy_def)

text \<open>
  C9. A call of \<^verbatim>\<open>runDailyReport\<close> leaves the field \<^verbatim>\<open>isProcessing\<close> as it found it.
  A call that sets the field (the field was not set and the list of accounts is
  configured) runs the stages with the field set, whatever they return or throw, and
  returns with the field cleared.
\<close>

theorem runDailyReport_clears_guard:
  "isProcessing (runDailyReport en w) = isProcessing w
   \<and> (\<not> isProcessing w \<and> TWITTER_TARGET_USERS en \<noteq> None \<longrightarrow>
        isProcessing (snd (report_body en (report_room en) (w\<lparr>isProcessing := True\<rparr>)))
        \<and> \<not> isProcessing (runDailyReport en w))"
proof (cases "isProcessing w \<or> TWITTER_TARGET_USERS en = None")
  case True
  then show ?thesis by (auto simp: runDailyReport_def)
next
  case False
  define w1 where "w1 = w\<lparr>isProcessing := True\<rparr>"
  from report_body_events [of w1 en "report_room en"] obtain evs where
    "grows w1 (snd (report_body en (report_room en) w1)) evs" by blast
  then have b: "isProcessing (snd (report_body en (report_room en) w1))"
    by (simp add: grows_def w1_def)
  from False have np: "\<not> isProcessing w" and nt: "TWITTER_TARGET_USERS en \<noteq> None" by auto
  have "\<not> isProcessing (runDailyReport en w)"
    unfolding runDailyReport_def Let_def using np nt by auto
  with b np show ?thesis by (simp add: w1_def)
qed

theorem runDailyReport_clears_guard_witness:
  "\<not> isProcessing idle \<and> TWITTER_TARGET_USERS failing_env \<noteq> None
   \<and> fst (report_body failing_env (report_room failing_env) (idle\<lparr>isProcessing := True\<rparr>))
       = Inl GenerationError
   \<and> isProcessing (snd (report_body failing_env (report_room failing_env)
                          (idle\<lparr>isProcessing := True\<rparr>)))
   \<and> \<not> isProcessing (runDailyReport failing_env idle)"
proof -
  have h: "\<not> isProcessing idle \<and> TWITTER_TARGET_USERS failing_env \<noteq> None"
    by (simp add: example_defs)
  from runDailyReport_clears_guard [of failing_env idle] h failed_run_quiet
  show ?thesis by simp
qed

section \<open>Persistence: theorems\<close>

text \<open>
  C8. In the calls that a run of \<^verbatim>\<open>runDailyReport\<close> makes, a call that persists
  something (a cache entry, the room, the participant, a memory record) comes only after
  a publication that succeeded: a run that fails before a successful publication
  persists nothing.
\<close>

theorem persistence_only_after_publication:
  "\<exists>evs. trace (runDailyReport en w) = trace w @ evs
         \<and> (list_ex is_persist evs \<longrightarrow>
               list_ex (publish_ok en) (takeWhile (\<lambda>e. \<not> is_persist e) evs))"
proof -
  from runDailyReport_events [of en w] obtain evs where
    t: "trace (runDailyReport en w) = trace w @ evs" and g: "guarded en evs" by blast
  from g have "list_ex is_persist evs \<longrightarrow>
               list_ex (publish_ok en) (takeWhile (\<lambda>e. \<not> is_persist e) evs)"
    by (auto simp: guarded_def quiet_def list_all_iff list_ex_iff)
  with t show ?thesis by blast
qed

theorem persistence_only_after_publication_witness:
  "list_ex is_persist (trace (runDailyReport example_env idle))
   \<and> list_ex (publish_ok example_env)
       (takeWhile (\<lambda>e. \<not> is_persist e) (trace (runDailyReport example_env idle)))"
proof -
  have t: "trace idle = []" by (simp add: idle_def)
  from persistence_only_after_publication [of example_env idle] example_run_persists t
  show ?thesis by auto
qed

section \<open>Publication: theorems\<close>

text \<open>
  C2, as the code has it. \<^verbatim>\<open>postTweet\<close> attempts the long form exactly when the text
  is longer than \<^verbatim>\<open>DEFAULT_MAX_TWEET_LENGTH\<close>, and one standard publication of the
  text otherwise. When the platform rejects the long form, one standard publication
  follows, of the text that \<^verbatim>\<open>truncateToCompleteSentence\<close> returns for the configured
  \<^verbatim>\<open>MAX_TWEET_LENGTH\<close>. That text is within \<^verbatim>\<open>MAX_TWEET_LENGTH\<close> when the helper
  keeps to the limit it is given.
\<close>

theorem postTweet_attempts:
  "(\<exists>evs. trace (postTweet en content roomId raw user w) = trace w @ evs
          \<and> filter is_publication evs = expected_attempts en content)
   \<and> ((\<forall>s n. length (truncateToCompleteSentence en s n) \<le> n) \<longrightarrow>
         length (truncateToCompleteSentence en content (MAX_TWEET_LENGTH en))
           \<le> MAX_TWEET_LENGTH en)"
proof -
  from postTweet_events [of w en content roomId raw user] obtain evs where
    "grows w (postTweet en content roomId raw user w) evs"
    "filter is_publication evs = expected_attempts en content" by blast
  then have "trace (postTweet en content roomId raw user w) = trace w @ evs
             \<and> filter is_publication evs = expected_attempts en content"
    by (simp add: grows_def)
  then show ?thesis by blast
qed

theorem postTweet_attempts_witness:
  "(\<forall>s n. length (truncateToCompleteSentence example_env s n) \<le> n)
   \<and> filter is_publication (trace (postTweet example_env long_report ''room'' long_report ''agent'' idle))
       = [SendNoteTweet long_report, SendTweet ''Done.'']
   \<and> length (truncateToCompleteSentence example_env long_report (MAX_TWEET_LENGTH example_env))
       \<le> MAX_TWEET_LENGTH example_env"
proof -
  have c: "\<forall>s n. length (truncateToCompleteSentence example_env s n) \<le> n"
    by (simp add: example_env_def spec_truncate_length)
  have t: "trace idle = []" by (simp add: idle_def)
  from postTweet_attempts [of example_env long_report "''room''" long_report "''agent''" idle]
  show ?thesis using c t long_report_attempts by auto
qed

text \<open>
  The claim C2 fails when the configured \<^verbatim>\<open>MAX_TWEET_LENGTH\<close> is above
  \<^verbatim>\<open>DEFAULT_MAX_TWEET_LENGTH\<close>: a text of 281 characters goes to the long form, is
  rejected, and is published again as it is, above the ceiling of 280 that routed it.
\<close>

theorem postTweet_fallback_counterexample:
  "filter is_publication (trace (postTweet premium_env long_text ''room'' long_text ''agent'' idle))
     = [SendNoteTweet long_text, SendTweet long_text]
   \<and> DEFAULT_MAX_TWEET_LENGTH premium_env < length long_text"
  by (simp add: stage_defs example_defs long_text_def spec_truncateToCompleteSentence_def)

section \<open>Collection: theorems\<close>



text \<open>
  C1 fails on the code: after the filtered tweets the loop pushes the whole fetch result.
  In the example the account's fetch returns a recent post and an old repost, and the
  returned list holds the old repost.
\<close>

theorem collect_keeps_old_repost:
  "fst (collectTargetUsersTweets example_env idle) = Inr [recent_post, recent_post, old_repost]
   \<and> isRetweet old_repost
   \<and> \<not> clock example_env 1 - timestamp old_repost < 24 * 60 * 60"
  by (simp add: collectTargetUsersTweets_def example_defs search_query_def emit_def Date_now_def
      Let_def)

text \<open>
  C4 fails on the code: an empty list of accounts is not an absent setting, so the guard
  lets the run in. In the example no account is fetched, both generations run and the
  report is published and persisted.
\<close>

theorem empty_target_list_still_publishes:
  "TWITTER_TARGET_USERS no_targets_env = Some []
   \<and> filter is_publication (trace (runDailyReport no_targets_env idle)) = [SendTweet ''Report.'']
   \<and> list_ex is_persist (trace (runDailyReport no_targets_env idle))"
  by (simp add: stage_defs example_defs)

end
